theory Spec2Isabelle
  imports Complex_Main "HOL-Library.Log_Nat"
begin

chapter \<open>Income aggregation, rankings, report filter, bulk import and project codes\<close>

text \<open>
  The sales-tracking pages compute their figures in the browser from rows of the
  \<open>projects\<close> and \<open>targets\<close> tables; the store assigns project codes in a trigger.
  This theory embeds those computations as functions and proves the properties that
  the specification states about them.
\<close>

section \<open>Data model\<close>

text \<open>
  A row of the \<open>projects\<close> table as the pages read it. Text columns that the pages test
  with \<open>||\<close> are optional strings: \<open>None\<close> stands for an absent value (\<open>null\<close> or
  \<open>undefined\<close>). \<open>nett_gp\<close> is the value of the \<open>bigint\<close> column, a whole Rupiah amount;
  the page sees it as the JavaScript number that the response carries (\<open>js_number\<close>
  below).
\<close>

record project =
  pid :: string
  category :: string
  product :: "string option"
  pic :: "string option"
  nett_gp :: int
  quarter :: string
  year :: int

text \<open>A row of the \<open>targets\<close> table (its numeric columns, all \<open>bigint\<close> but the year).\<close>

record target_row =
  t_year :: int
  q1_target :: int
  q2_target :: int
  q3_target :: int
  q4_target :: int
  yearly_target :: int

text \<open>
  A JavaScript \<open>number\<close> is a double. It is modelled by the rational number it
  denotes; the operations below round as the double operations do.
\<close>

type_synonym number = rat

text \<open>
  One element of \<open>DashboardStats.quarterlyData\<close>: the fields \<open>quarter\<close>, \<open>income\<close> and
  \<open>target\<close> of the source, prefixed because \<open>quarter\<close> is a field of \<open>project\<close> too.
\<close>

record quarter_entry =
  qe_quarter :: string
  qe_income :: number
  qe_target :: number

text \<open>One element of \<open>DashboardStats.categoryData\<close>: \<open>{ name, value }\<close>.\<close>

record category_entry =
  name :: string
  val :: number

record DashboardStats =
  totalIncome :: number
  target :: number
  achievement :: number
  gap :: number
  quarterlyData :: "quarter_entry list"
  categoryData :: "category_entry list"

text \<open>
  A ranking entry \<open>{ pic | product, totalIncome, projectCount }\<close>. The interfaces
  \<open>PicRanking\<close> and \<open>ProductRanking\<close> differ only in the name of the key field, which is
  \<open>rkey\<close> here; the income field is \<open>r_totalIncome\<close> because \<open>totalIncome\<close> is a field of
  \<open>DashboardStats\<close>.
\<close>

record 'k Ranking =
  rkey :: 'k
  r_totalIncome :: number
  projectCount :: nat

text \<open>One element of \<open>ProductRanking.pics\<close> in the product leaderboard: \<open>{ pic, income }\<close>.\<close>

record PicBreakdown =
  pb_pic :: "string option"
  pb_income :: number

text \<open>The product leaderboard's entry: a ranking entry with the nested breakdown.\<close>

record ProductRanking = "string Ranking" +
  pics :: "PicBreakdown list"

section \<open>JavaScript primitives used by the pages\<close>

subsection \<open>Double arithmetic\<close>

text \<open>
  Every arithmetic operation on numbers yields the double nearest to the exact result,
  ties going to the even significand. A double other than 0 is a whole number of at most
  53 bits times a power of two: with \<open>exponent x\<close> the power of two at or below
  \<open>\<bar>x\<bar>\<close>, the doubles around \<open>x\<close> are the multiples of \<open>2 powi (exponent x - 52)\<close>.
  The exponent range of doubles is not modelled (no overflow to \<open>Infinity\<close>, no
  subnormal numbers): sums of \<open>bigint\<close> amounts and their quotients stay inside it for
  any table of fewer than \<open>2 ^ 960\<close> rows.
\<close>

definition round_half_even :: "rat \<Rightarrow> int" where
  "round_half_even y =
     (let f = \<lfloor>y\<rfloor>; d = y - of_int f
      in if d < 1 / 2 then f else if 1 / 2 < d then f + 1
         else if even f then f else f + 1)"

definition exponent :: "rat \<Rightarrow> int" where
  "exponent x =
     (if 1 \<le> \<bar>x\<bar> then bitlen \<lfloor>\<bar>x\<bar>\<rfloor> - 1 else - bitlen (\<lceil>1 / \<bar>x\<bar>\<rceil> - 1))"

definition double_round :: "rat \<Rightarrow> number" where
  "double_round x =
     (if x = 0 then 0
      else of_int (round_half_even (x / 2 powi (exponent x - 52))) * 2 powi (exponent x - 52))"

text \<open>The operators \<open>+\<close>, \<open>-\<close>, \<open>*\<close> and \<open>/\<close> (the last for a divisor other than 0).\<close>

definition dadd :: "number \<Rightarrow> number \<Rightarrow> number" where
  "dadd x y = double_round (x + y)"

definition dsub :: "number \<Rightarrow> number \<Rightarrow> number" where
  "dsub x y = double_round (x - y)"

definition dmul :: "number \<Rightarrow> number \<Rightarrow> number" where
  "dmul x y = double_round (x * y)"

definition ddiv :: "number \<Rightarrow> number \<Rightarrow> number" where
  "ddiv x y = double_round (x / y)"

text \<open>
  The number that the page holds for a \<open>bigint\<close> column value: the response carries
  the digits, and parsing them gives the nearest double. \<open>Number(x)\<close> of a number is
  the number itself.
\<close>

definition js_number :: "int \<Rightarrow> number" where
  "js_number v = double_round (of_int v)"

subsection \<open>Maps, fallbacks, sorting\<close>

text \<open>
  A \<open>Map\<close> keeps its entries in insertion order; \<open>set\<close> on a present key replaces the
  value in place, on a new key appends the entry. \<open>Array.from(m.entries())\<close> is the
  association list itself.
\<close>

fun map_get :: "('k \<times> 'v) list \<Rightarrow> 'k \<Rightarrow> 'v option" where
  "map_get [] k = None"
| "map_get ((k', v') # m) k = (if k' = k then Some v' else map_get m k)"

fun map_set :: "('k \<times> 'v) list \<Rightarrow> 'k \<Rightarrow> 'v \<Rightarrow> ('k \<times> 'v) list" where
  "map_set [] k v = [(k, v)]"
| "map_set ((k', v') # m) k v =
     (if k' = k then (k, v) # m else (k', v') # map_set m k v)"

text \<open>\<open>x || 0\<close> on an optional number: absent and \<open>0\<close> are both falsy.\<close>

definition or_zero :: "number option \<Rightarrow> number" where
  "or_zero x = (case x of None \<Rightarrow> 0 | Some v \<Rightarrow> (if v = 0 then 0 else v))"

text \<open>\<open>x || 'N/A'\<close> on an optional string: absent and the empty string are both falsy.\<close>

definition or_NA :: "string option \<Rightarrow> string" where
  "or_NA x = (case x of None \<Rightarrow> ''N/A'' | Some s \<Rightarrow> (if s = [] then ''N/A'' else s))"

text \<open>
  \<open>Array.prototype.sort(cmp)\<close>: a stable sort; \<open>a\<close> stays before \<open>b\<close> unless
  \<open>cmp(a, b) > 0\<close>. Insertion from the right keeps equal elements in input order.
\<close>

fun insert_by :: "('a \<Rightarrow> 'a \<Rightarrow> number) \<Rightarrow> 'a \<Rightarrow> 'a list \<Rightarrow> 'a list" where
  "insert_by cmp x [] = [x]"
| "insert_by cmp x (y # ys) =
     (if cmp x y \<le> 0 then x # y # ys else y # insert_by cmp x ys)"

definition sort_by :: "('a \<Rightarrow> 'a \<Rightarrow> number) \<Rightarrow> 'a list \<Rightarrow> 'a list" where
  "sort_by cmp xs = foldr (insert_by cmp) xs []"

text \<open>\<open>xs.reduce((sum, p) => sum + Number(p.nett_gp), 0)\<close>.\<close>

definition sum_nett_gp :: "project list \<Rightarrow> number" where
  "sum_nett_gp ps = foldl (\<lambda>sum p. dadd sum (js_number (nett_gp p))) 0 ps"

text \<open>\<open>String.prototype.toLowerCase\<close> on ASCII text.\<close>

definition lower_char :: "char \<Rightarrow> char" where
  "lower_char c =
     (case map_of (zip ''ABCDEFGHIJKLMNOPQRSTUVWXYZ'' ''abcdefghijklmnopqrstuvwxyz'') c of
        None \<Rightarrow> c
      | Some l \<Rightarrow> l)"

definition toLowerCase :: "string \<Rightarrow> string" where
  "toLowerCase s = map lower_char s"

text \<open>
  \<open>targetData?.[key]\<close>: reading a column of the target row by its name; a name that is
  no numeric column, or an absent row, gives nothing.
\<close>

definition target_field :: "target_row option \<Rightarrow> string \<Rightarrow> number option" where
  "target_field t key =
     (case t of None \<Rightarrow> None
      | Some r \<Rightarrow>
          (if key = ''year'' then Some (js_number (t_year r))
           else if key = ''q1_target'' then Some (js_number (q1_target r))
           else if key = ''q2_target'' then Some (js_number (q2_target r))
           else if key = ''q3_target'' then Some (js_number (q3_target r))
           else if key = ''q4_target'' then Some (js_number (q4_target r))
           else if key = ''yearly_target'' then Some (js_number (yearly_target r))
           else None))"

text \<open>
  Decimal rendering of a non-negative whole number, as \<open>Number.prototype.toString\<close>,
  a template literal and SQL's \<open>counter::text\<close> produce it.
\<close>

definition digit_char :: "nat \<Rightarrow> char" where
  "digit_char d =
     (if d = 0 then CHR ''0'' else if d = 1 then CHR ''1'' else if d = 2 then CHR ''2''
      else if d = 3 then CHR ''3'' else if d = 4 then CHR ''4'' else if d = 5 then CHR ''5''
      else if d = 6 then CHR ''6'' else if d = 7 then CHR ''7'' else if d = 8 then CHR ''8''
      else CHR ''9'')"

fun show_nat :: "nat \<Rightarrow> string" where
  "show_nat n = (if n < 10 then [digit_char n] else show_nat (n div 10) @ [digit_char (n mod 10)])"

declare show_nat.simps [simp del]

text \<open>\<open>n.toString()\<close> for a whole number \<open>n\<close>.\<close>

definition toString :: "int \<Rightarrow> string" where
  "toString i = (if i < 0 then CHR ''-'' # show_nat (nat (- i)) else show_nat (nat i))"

text \<open>\<open>msgs.join(sep)\<close>.\<close>

fun join :: "string \<Rightarrow> string list \<Rightarrow> string" where
  "join sep [] = []"
| "join sep [s] = s"
| "join sep (s # t # ss) = s @ sep @ join sep (t # ss)"

section \<open>Dashboard: \<open>fetchDashboardData\<close>\<close>

text \<open>
  \<open>fetchDashboardData\<close> reads the projects of the selected year and the year's target
  row, then, when the project list arrived, computes the statistics object it passes to
  \<open>setStats\<close> and the two rankings it passes to \<open>setTopPics\<close> and \<open>setTopProducts\<close>.
  The definitions below are those three computations as functions of the project list
  and the optional target row.
\<close>

definition quarter_labels :: "string list" where
  "quarter_labels = [''Q1'', ''Q2'', ''Q3'', ''Q4'']"

definition quarterly_entry :: "project list \<Rightarrow> target_row option \<Rightarrow> string \<Rightarrow> quarter_entry" where
  "quarterly_entry projects targetData q =
     \<lparr> qe_quarter = q,
       qe_income = sum_nett_gp (filter (\<lambda>p. quarter p = q) projects),
       qe_target = or_zero (target_field targetData (toLowerCase q @ ''_target'')) \<rparr>"

definition categoryMap :: "project list \<Rightarrow> (string \<times> number) list" where
  "categoryMap projects =
     foldl (\<lambda>m p. map_set m (category p)
              (dadd (or_zero (map_get m (category p))) (js_number (nett_gp p))))
       [] projects"

definition fetchDashboardData_stats :: "project list \<Rightarrow> target_row option \<Rightarrow> DashboardStats" where
  "fetchDashboardData_stats projects targetData =
     (let total = sum_nett_gp projects;
          yearlyTarget = or_zero (target_field targetData ''yearly_target'')
      in \<lparr> totalIncome = total,
           target = yearlyTarget,
           achievement =
             (if yearlyTarget > 0 then dmul (ddiv total yearlyTarget) 100 else 0),
           gap = dsub yearlyTarget total,
           quarterlyData = map (quarterly_entry projects targetData) quarter_labels,
           categoryData = map (\<lambda>(n, v). \<lparr> name = n, val = v \<rparr>) (categoryMap projects) \<rparr>)"

text \<open>
  The grouping loop of a leaderboard: \<open>projects.forEach\<close> reads the entry of the
  project's key (or \<open>{ total: 0, count: 0 }\<close>) and stores it with the income added and
  the count incremented. The entry is the pair \<open>(total, count)\<close>; \<open>keyOf\<close> is the key
  expression of the loop at hand.
\<close>

definition group_step :: "(project \<Rightarrow> 'k) \<Rightarrow> ('k \<times> number \<times> nat) list \<Rightarrow> project \<Rightarrow> ('k \<times> number \<times> nat) list" where
  "group_step keyOf m p =
     (let current = (case map_get m (keyOf p) of None \<Rightarrow> (0, 0) | Some c \<Rightarrow> c)
      in map_set m (keyOf p) (dadd (fst current) (js_number (nett_gp p)), snd current + 1))"

text \<open>The comparator \<open>(a, b) => b.totalIncome - a.totalIncome\<close>.\<close>

definition by_income_desc :: "('k, 'z) Ranking_scheme \<Rightarrow> ('k, 'z) Ranking_scheme \<Rightarrow> number" where
  "by_income_desc a b = dsub (r_totalIncome b) (r_totalIncome a)"

text \<open>\<open>.map(([key, data]) => ({ key, totalIncome: data.total, projectCount: data.count }))\<close>.\<close>

definition to_ranking :: "'k \<times> number \<times> nat \<Rightarrow> 'k Ranking" where
  "to_ranking e = \<lparr> rkey = fst e, r_totalIncome = fst (snd e), projectCount = snd (snd e) \<rparr>"

definition picMap :: "project list \<Rightarrow> (string \<times> number \<times> nat) list" where
  "picMap projects = foldl (group_step (\<lambda>p. or_NA (pic p))) [] projects"

text \<open>The PIC ranking of the dashboard before \<open>.slice(0, 5)\<close>, and the ranking shown.\<close>

definition topPics_sorted :: "project list \<Rightarrow> string Ranking list" where
  "topPics_sorted projects = sort_by by_income_desc (map to_ranking (picMap projects))"

definition topPicsArray :: "project list \<Rightarrow> string Ranking list" where
  "topPicsArray projects = take 5 (topPics_sorted projects)"

definition productMap :: "project list \<Rightarrow> (string \<times> number \<times> nat) list" where
  "productMap projects = foldl (group_step (\<lambda>p. or_NA (product p))) [] projects"

definition topProducts_sorted :: "project list \<Rightarrow> string Ranking list" where
  "topProducts_sorted projects = sort_by by_income_desc (map to_ranking (productMap projects))"

definition topProductsArray :: "project list \<Rightarrow> string Ranking list" where
  "topProductsArray projects = take 5 (topProducts_sorted projects)"

section \<open>Leaderboard pages: \<open>TopPics.fetchRankings\<close> and \<open>TopProducts.fetchRankings\<close>\<close>

text \<open>
  The PIC leaderboard keys its map by \<open>project.pic\<close> as it is, so the key is the
  optional string itself.
\<close>

definition TopPics_picMap :: "project list \<Rightarrow> (string option \<times> number \<times> nat) list" where
  "TopPics_picMap projects = foldl (group_step pic) [] projects"

definition TopPics_sorted :: "project list \<Rightarrow> string option Ranking list" where
  "TopPics_sorted projects = sort_by by_income_desc (map to_ranking (TopPics_picMap projects))"

definition TopPics_rankingsArray :: "project list \<Rightarrow> string option Ranking list" where
  "TopPics_rankingsArray projects = take 5 (TopPics_sorted projects)"

text \<open>
  The product leaderboard's entry is \<open>{ total, count, pics }\<close> with \<open>pics\<close> a map from
  \<open>project.pic\<close> to an income. The loop updates the entry's own \<open>pics\<close> map and stores
  the entry again; a new product starts from a fresh map, so no two entries share one.
\<close>

type_synonym product_entry = "number \<times> nat \<times> (string option \<times> number) list"

definition product_step :: "(string \<times> product_entry) list \<Rightarrow> project \<Rightarrow> (string \<times> product_entry) list" where
  "product_step m p =
     (let productName = or_NA (product p);
          current = (case map_get m productName of None \<Rightarrow> (0, 0, []) | Some c \<Rightarrow> c);
          picIncome = or_zero (map_get (snd (snd current)) (pic p));
          current_pics = map_set (snd (snd current)) (pic p)
                           (dadd picIncome (js_number (nett_gp p)))
      in map_set m productName
           (dadd (fst current) (js_number (nett_gp p)), fst (snd current) + 1, current_pics))"

definition TopProducts_productMap :: "project list \<Rightarrow> (string \<times> product_entry) list" where
  "TopProducts_productMap projects = foldl product_step [] projects"

text \<open>The comparator \<open>(a, b) => b.income - a.income\<close> of the nested breakdown.\<close>

definition by_pic_income_desc :: "PicBreakdown \<Rightarrow> PicBreakdown \<Rightarrow> number" where
  "by_pic_income_desc a b = dsub (pb_income b) (pb_income a)"

definition to_product_ranking :: "string \<times> product_entry \<Rightarrow> ProductRanking" where
  "to_product_ranking e =
     \<lparr> rkey = fst e, r_totalIncome = fst (snd e), projectCount = fst (snd (snd e)),
       pics = sort_by by_pic_income_desc
                (map (\<lambda>(k, income). \<lparr> pb_pic = k, pb_income = income \<rparr>) (snd (snd (snd e)))) \<rparr>"

definition TopProducts_sorted :: "project list \<Rightarrow> ProductRanking list" where
  "TopProducts_sorted projects =
     sort_by by_income_desc (map to_product_ranking (TopProducts_productMap projects))"

definition TopProducts_rankingsArray :: "project list \<Rightarrow> ProductRanking list" where
  "TopProducts_rankingsArray projects = take 5 (TopProducts_sorted projects)"

section \<open>Reports page: \<open>applyFilters\<close> and \<open>totalIncome\<close>\<close>

definition applyFilters :: "project list \<Rightarrow> string \<Rightarrow> string \<Rightarrow> string \<Rightarrow> project list" where
  "applyFilters projects year_sel quarter_sel category_sel =
     (let filtered = filter (\<lambda>p. toString (year p) = year_sel) projects;
          filtered = (if quarter_sel \<noteq> ''all''
                      then filter (\<lambda>p. quarter p = quarter_sel) filtered else filtered);
          filtered = (if category_sel \<noteq> ''all''
                      then filter (\<lambda>p. category p = category_sel) filtered else filtered)
      in filtered)"

definition Reports_totalIncome :: "project list \<Rightarrow> number" where
  "Reports_totalIncome filteredProjects = sum_nett_gp filteredProjects"

section \<open>Bulk import: \<open>parseExcelFile\<close> and the upload form\<close>

text \<open>
  The object that \<open>parseExcelFile\<close> builds from a sheet row and hands to
  \<open>projectSchema.parse\<close>: text fields after the \<open>||\<close> fallbacks, \<open>nett_gp\<close> after
  \<open>parseFloat\<close> and \<open>year\<close> after \<open>parseInt\<close>, where \<open>None\<close> is \<open>NaN\<close>. A parsed
  project is the same object.
\<close>

record candidate =
  c_pid :: string
  c_business_partner :: string
  c_end_user :: string
  c_category :: string
  c_product :: string
  c_pic :: string
  c_nett_gp :: "real option"
  c_quarter :: string
  c_year :: "int option"
  c_keterangan :: string

text \<open>
  What the \<open>try\<close> block around one row ends with: the parsed project, a \<open>ZodError\<close>
  with the messages of its issues, or any other exception.
\<close>

datatype 'p row_outcome = is_Parsed: Parsed (the_parsed: 'p) | ZodError "string list" | OtherError

text \<open>
  \<open>projectSchema.parse\<close>: every field is checked and the issues are collected in the
  order of the schema's keys. The messages of the two numeric fields that the schema
  does not override are the validation library's own.
\<close>

definition projectSchema_issues :: "candidate \<Rightarrow> string list" where
  "projectSchema_issues c =
     (if length (c_pid c) < 1 then [''PID is required''] else [])
   @ (if length (c_business_partner c) < 2 then [''Business Partner is required''] else [])
   @ (if length (c_end_user c) < 2 then [''End User is required''] else [])
   @ (if c_category c \<notin> set [''Implementation'', ''Maintenance'', ''LSC'']
      then [''Category must be Implementation, Maintenance, or LSC''] else [])
   @ (if length (c_pic c) < 2 then [''PIC is required''] else [])
   @ (case c_nett_gp c of
        None \<Rightarrow> [''Expected number, received nan'']
      | Some g \<Rightarrow> (if g \<le> 0 then [''Nett GP must be positive''] else []))
   @ (if c_quarter c \<notin> set [''Q1'', ''Q2'', ''Q3'', ''Q4'']
      then [''Quarter must be Q1, Q2, Q3, or Q4''] else [])
   @ (case c_year c of
        None \<Rightarrow> [''Expected number, received nan'']
      | Some y \<Rightarrow>
          (if y < 2000 then [''Number must be greater than or equal to 2000''] else [])
        @ (if y > 2100 then [''Number must be less than or equal to 2100''] else []))"

definition projectSchema_parse :: "candidate \<Rightarrow> candidate row_outcome" where
  "projectSchema_parse c =
     (if projectSchema_issues c = [] then Parsed c else ZodError (projectSchema_issues c))"

record 'p ParseResult =
  success :: bool
  data :: "'p list option"
  errors :: "string list option"

text \<open>
  One turn of \<open>jsonData.forEach((row, index) => ...)\<close> on the two arrays \<open>errors\<close> and
  \<open>validProjects\<close>; \<open>parse\<close> is what the \<open>try\<close> block does with the row.
\<close>

definition row_error :: "nat \<Rightarrow> 'p row_outcome \<Rightarrow> string" where
  "row_error index r =
     (case r of
        ZodError msgs \<Rightarrow> ''Row '' @ show_nat (index + 2) @ '': '' @ join '', '' msgs
      | _ \<Rightarrow> ''Row '' @ show_nat (index + 2) @ '': Invalid data'')"

definition row_step :: "('r \<Rightarrow> 'p row_outcome) \<Rightarrow> string list \<times> 'p list \<Rightarrow> nat \<times> 'r \<Rightarrow> string list \<times> 'p list" where
  "row_step parse acc ir =
     (case parse (snd ir) of
        Parsed project \<Rightarrow> (fst acc, snd acc @ [project])
      | r \<Rightarrow> (fst acc @ [row_error (fst ir) r], snd acc))"

text \<open>
  What the file reader delivers: \<open>reader.onerror\<close>, a workbook that \<open>XLSX.read\<close> or
  \<open>sheet_to_json\<close> throws on, or the rows of the first sheet.
\<close>

datatype 'r file_read = ReadFailed | Unparseable | Sheet "'r list"

definition parseExcelFile :: "('r \<Rightarrow> 'p row_outcome) \<Rightarrow> 'r file_read \<Rightarrow> 'p ParseResult" where
  "parseExcelFile parse file =
     (case file of
        ReadFailed \<Rightarrow> \<lparr> success = False, data = None, errors = Some [''Failed to read file''] \<rparr>
      | Unparseable \<Rightarrow>
          \<lparr> success = False, data = None,
            errors = Some [''Failed to parse Excel file. Please check the format.''] \<rparr>
      | Sheet jsonData \<Rightarrow>
          (let acc = foldl (row_step parse) ([], []) (enumerate 0 jsonData);
               errs = fst acc; validProjects = snd acc
           in if length errs > 0 then \<lparr> success = False, data = None, errors = Some errs \<rparr>
              else if length validProjects = 0
              then \<lparr> success = False, data = None,
                     errors = Some [''No valid data found in Excel file''] \<rparr>
              else \<lparr> success = True, data = Some validProjects, errors = None \<rparr>))"

text \<open>
  The upload form: \<open>handleFileChange\<close> clears \<open>preview\<close> and \<open>errors\<close>, then keeps the
  parsed rows as \<open>preview\<close> on success, the messages as \<open>errors\<close> otherwise; the pair is
  \<open>(preview, errors)\<close>. \<open>handleUpload\<close> sends \<open>preview\<close> to the store in one insert,
  unless it is empty.
\<close>

definition handleFileChange :: "'p ParseResult \<Rightarrow> 'p list \<times> string list" where
  "handleFileChange result =
     (case (success result, data result) of
        (True, Some d) \<Rightarrow> (d, [])
      | _ \<Rightarrow> (case errors result of Some es \<Rightarrow> ([], es) | None \<Rightarrow> ([], [])))"

definition handleUpload :: "'p list \<Rightarrow> 'p list option" where
  "handleUpload preview = (if length preview = 0 then None else Some preview)"

section \<open>Store: \<open>generate_pid\<close> and the trigger \<open>set_project_pid\<close>\<close>

text \<open>
  Of a stored project the trigger reads only the year of \<open>created_at\<close>. \<open>now_year\<close> is
  the year of \<open>NOW()\<close>.
\<close>

record stored_project =
  sp_pid :: string
  created_at_year :: nat

text \<open>\<open>LPAD(s, n, c)\<close> for a one-character fill: a longer string is cut to \<open>n\<close>.\<close>

definition LPAD :: "string \<Rightarrow> nat \<Rightarrow> char \<Rightarrow> string" where
  "LPAD s n c = (if length s \<ge> n then take n s else replicate (n - length s) c @ s)"

text \<open>\<open>TO_CHAR(NOW(), 'YY')\<close>: the last two digits of the year.\<close>

definition TO_CHAR_YY :: "nat \<Rightarrow> string" where
  "TO_CHAR_YY y = LPAD (show_nat (y mod 100)) 2 CHR ''0''"

text \<open>\<open>SELECT COUNT(*) FROM projects WHERE EXTRACT(YEAR FROM created_at) = now_year\<close>.\<close>

definition count_created_in :: "nat \<Rightarrow> stored_project list \<Rightarrow> nat" where
  "count_created_in now_year projects =
     length (filter (\<lambda>r. created_at_year r = now_year) projects)"

definition generate_pid :: "nat \<Rightarrow> stored_project list \<Rightarrow> string" where
  "generate_pid now_year projects =
     (let year_suffix = TO_CHAR_YY now_year;
          counter = count_created_in now_year projects + 1;
          new_pid = ''P'' @ year_suffix @ LPAD (show_nat counter) 4 CHR ''0''
      in new_pid)"

text \<open>The trigger's result: the \<open>pid\<close> of the row that is inserted.\<close>

definition set_project_pid :: "nat \<Rightarrow> stored_project list \<Rightarrow> string option \<Rightarrow> string" where
  "set_project_pid now_year projects new_pid =
     (case new_pid of
        None \<Rightarrow> generate_pid now_year projects
      | Some s \<Rightarrow> (if s = [] then generate_pid now_year projects else s))"

text \<open>The number that a string of decimal digits denotes.\<close>

definition digit_val :: "char \<Rightarrow> nat" where
  "digit_val c = of_char c - 48"

definition is_digit :: "char \<Rightarrow> bool" where
  "is_digit c = (48 \<le> (of_char c :: nat) \<and> (of_char c :: nat) \<le> 57)"

definition read_nat :: "string \<Rightarrow> nat" where
  "read_nat s = foldl (\<lambda>a c. 10 * a + digit_val c) 0 s"

section \<open>The summing loop by name, and example data\<close>

text \<open>
  The summing loop that \<open>categoryMap\<close> and the nested \<open>pics\<close> map both run, with the
  key expression as a parameter: the entry of the record's key (or 0) plus its income.
\<close>

definition sum_step :: "(project \<Rightarrow> 'k) \<Rightarrow> ('k \<times> number) list \<Rightarrow> project \<Rightarrow> ('k \<times> number) list" where
  "sum_step keyOf m p =
     map_set m (keyOf p) (dadd (or_zero (map_get m (keyOf p))) (js_number (nett_gp p)))"

text \<open>
  The sum of the absolute amounts of a record list. While it is at most \<open>2 ^ 53\<close>,
  every sum of some of the amounts is a whole number that a double holds exactly.
\<close>

definition abs_total :: "project list \<Rightarrow> int" where
  "abs_total ps = sum_list (map (\<lambda>p. \<bar>nett_gp p\<bar>) ps)"

text \<open>The \<open>yearly_target\<close> column of the target row, or 0 without a row.\<close>

definition yearly_or_0 :: "target_row option \<Rightarrow> int" where
  "yearly_or_0 t = (case t of None \<Rightarrow> 0 | Some r \<Rightarrow> yearly_target r)"

text \<open>Two projects of one product and quarter, and a target row, for concrete runs.\<close>

definition ex_p1 :: project where
  "ex_p1 = \<lparr> pid = ''P250001'', category = ''Implementation'', product = Some ''NetApp'',
             pic = Some ''Xena'', nett_gp = 100, quarter = ''Q1'', year = 2025 \<rparr>"

definition ex_p2 :: project where
  "ex_p2 = \<lparr> pid = ''P250002'', category = ''Maintenance'', product = Some ''NetApp'',
             pic = Some ''Yuri'', nett_gp = 200, quarter = ''Q1'', year = 2025 \<rparr>"

definition ex_target :: target_row where
  "ex_target = \<lparr> t_year = 2025, q1_target = 200, q2_target = 0, q3_target = 0,
                 q4_target = 0, yearly_target = 200 \<rparr>"

text \<open>
  A project without a product whose \<open>pic\<close> is the empty string, and one whose product
  is the empty string and whose \<open>pic\<close> is absent.
\<close>

definition ex_p3 :: project where
  "ex_p3 = \<lparr> pid = ''P250003'', category = ''LSC'', product = None,
             pic = Some [], nett_gp = 50, quarter = ''Q2'', year = 2025 \<rparr>"

definition ex_p4 :: project where
  "ex_p4 = \<lparr> pid = ''P250004'', category = ''LSC'', product = Some [],
             pic = None, nett_gp = 25, quarter = ''Q3'', year = 2024 \<rparr>"

text \<open>
  A project of \<open>2 ^ 53\<close> Rupiah and two of one Rupiah, all of one product and year; a
  project of 7 Rupiah with a target of 25; a project of one Rupiah with a target of
  \<open>2 ^ 53 + 2\<close>.
\<close>

definition ex_big :: project where
  "ex_big = \<lparr> pid = ''P250005'', category = ''Implementation'', product = Some ''NetApp'',
              pic = Some ''Ann'', nett_gp = 9007199254740992, quarter = ''Q1'', year = 2025 \<rparr>"

definition ex_one1 :: project where
  "ex_one1 = \<lparr> pid = ''P250006'', category = ''Maintenance'', product = Some ''NetApp'',
               pic = Some ''Bob'', nett_gp = 1, quarter = ''Q2'', year = 2025 \<rparr>"

definition ex_one2 :: project where
  "ex_one2 = \<lparr> pid = ''P250007'', category = ''Maintenance'', product = Some ''NetApp'',
               pic = Some ''Bob'', nett_gp = 1, quarter = ''Q2'', year = 2025 \<rparr>"

definition ex_seven :: project where
  "ex_seven = \<lparr> pid = ''P250008'', category = ''LSC'', product = None,
                pic = Some ''Ann'', nett_gp = 7, quarter = ''Q1'', year = 2025 \<rparr>"

definition ex_target25 :: target_row where
  "ex_target25 = \<lparr> t_year = 2025, q1_target = 25, q2_target = 0, q3_target = 0,
                   q4_target = 0, yearly_target = 25 \<rparr>"

definition ex_target_big :: target_row where
  "ex_target_big = \<lparr> t_year = 2025, q1_target = 0, q2_target = 0, q3_target = 0,
                     q4_target = 0, yearly_target = 9007199254740994 \<rparr>"

text \<open>Two sheet rows: one that the schema accepts and one with two faults.\<close>

definition ex_c1 :: candidate where
  "ex_c1 = \<lparr> c_pid = ''P250001'', c_business_partner = ''Example Corp'',
             c_end_user = ''ABC Company'', c_category = ''Implementation'',
             c_product = ''NetApp'', c_pic = ''John Doe'', c_nett_gp = Some 50000000,
             c_quarter = ''Q1'', c_year = Some 2025, c_keterangan = ''Optional notes'' \<rparr>"

definition ex_c2 :: candidate where
  "ex_c2 = \<lparr> c_pid = ''P250002'', c_business_partner = ''Example Corp'',
             c_end_user = ''ABC Company'', c_category = ''Other'',
             c_product = [], c_pic = ''John Doe'', c_nett_gp = Some 0,
             c_quarter = ''Q1'', c_year = Some 2025, c_keterangan = [] \<rparr>"

text \<open>
  A store in which \<open>n\<close> projects were created in 2025, carrying the codes P250001,
  P250002 and so on.
\<close>

definition ex_table :: "nat \<Rightarrow> stored_project list" where
  "ex_table n = map (\<lambda>i. \<lparr> sp_pid = ''P25'' @ LPAD (show_nat (Suc i)) 4 CHR ''0'',
                             created_at_year = 2025 \<rparr>) [0..<n]"


section \<open>Facts about double arithmetic\<close>

subsection \<open>Rounding to a whole number\<close>

lemma rhe_of_int: "round_half_even (of_int k) = k"
  by (simp add: round_half_even_def)

lemma rhe_cases:
  "(round_half_even y = \<lfloor>y\<rfloor> \<and> y - of_int \<lfloor>y\<rfloor> \<le> 1 / 2) \<or> (round_half_even y = \<lfloor>y\<rfloor> + 1 \<and> 1 / 2 \<le> y - of_int \<lfloor>y\<rfloor>)"
  by (auto simp: round_half_even_def Let_def)

lemma rhe_err: "\<bar>of_int (round_half_even y) - y\<bar> \<le> 1 / 2"
proof -
  have "of_int \<lfloor>y\<rfloor> \<le> y" "y < of_int \<lfloor>y\<rfloor> + 1" by linarith+
  with rhe_cases [of y] show ?thesis by auto
qed

lemma rhe_ge: "of_int a \<le> y \<Longrightarrow> a \<le> round_half_even y"
proof -
  assume "of_int a \<le> y"
  then have "a \<le> \<lfloor>y\<rfloor>" by (simp add: le_floor_iff)
  with rhe_cases [of y] show ?thesis by auto
qed

lemma rhe_le: "y \<le> of_int b \<Longrightarrow> round_half_even y \<le> b"
proof -
  assume le: "y \<le> of_int b"
  show ?thesis
  proof (cases "y = of_int b")
    case True
    then show ?thesis by (simp add: rhe_of_int)
  next
    case False
    with le have "y < of_int b" by simp
    then have "\<lfloor>y\<rfloor> < b" by (simp add: floor_less_iff)
    with rhe_cases [of y] show ?thesis by auto
  qed
qed

lemma rhe_neg: "round_half_even (- y) = - round_half_even y"
proof (cases "y \<in> \<int>")
  case True
  then obtain k where "y = of_int k" by (auto elim: Ints_cases)
  then have "- y = of_int (- k)" by simp
  then show ?thesis using \<open>y = of_int k\<close> by (simp only: rhe_of_int)
next
  case False
  then have "of_int \<lfloor>y\<rfloor> \<noteq> y" by (metis Ints_of_int)
  then have fl: "\<lfloor>- y\<rfloor> = - \<lfloor>y\<rfloor> - 1"
    by (simp add: floor_minus ceiling_altdef)
  have b: "of_int \<lfloor>y\<rfloor> \<le> y" "y < of_int \<lfloor>y\<rfloor> + 1" by linarith+
  show ?thesis
    unfolding round_half_even_def Let_def fl using b by (auto simp: field_simps)
qed

subsection \<open>The exponent\<close>

lemma expo_lower: "x \<noteq> 0 \<Longrightarrow> 2 powi (exponent x) \<le> \<bar>x\<bar>"
proof (cases "1 \<le> \<bar>x\<bar>")
  case True
  define m where "m = \<lfloor>\<bar>x\<bar>\<rfloor>"
  from True have m: "0 < m" by (simp add: m_def)
  then have "1 \<le> bitlen m" by (simp add: bitlen_alt_def)
  from bitlen_bounds [OF m] have "2 ^ nat (bitlen m - 1) \<le> m" ..
  then have "(2::rat) ^ nat (bitlen m - 1) \<le> of_int m"
    by (metis of_int_le_iff of_int_numeral of_int_power)
  also have "\<dots> \<le> \<bar>x\<bar>" by (simp add: m_def)
  finally show ?thesis using True \<open>1 \<le> bitlen m\<close>
    by (simp add: exponent_def m_def power_int_nonneg_exp)
next
  case False
  assume "x \<noteq> 0"
  define y where "y = 1 / \<bar>x\<bar>"
  define m where "m = \<lceil>y\<rceil>"
  from False \<open>x \<noteq> 0\<close> have y: "1 < y" by (simp add: y_def)
  then have m: "2 \<le> m" unfolding m_def by (simp add: le_ceiling_iff)
  then have "0 < m - 1" by simp
  from bitlen_bounds [OF this] have "m - 1 < 2 ^ nat (bitlen (m - 1))" ..
  then have "m \<le> 2 ^ nat (bitlen (m - 1))" by simp
  then have "of_int m \<le> (2::rat) ^ nat (bitlen (m - 1))"
    by (metis of_int_le_iff of_int_numeral of_int_power)
  moreover have "y \<le> of_int m" by (simp add: m_def)
  ultimately have "y \<le> 2 ^ nat (bitlen (m - 1))" by (rule order_trans [rotated])
  then have "1 / 2 ^ nat (bitlen (m - 1)) \<le> \<bar>x\<bar>"
    using \<open>x \<noteq> 0\<close> by (simp add: y_def field_simps)
  then show ?thesis using False
    by (simp add: exponent_def m_def y_def power_int_minus_divide power_int_nonneg_exp bitlen_nonneg)
qed

lemma expo_upper: "x \<noteq> 0 \<Longrightarrow> \<bar>x\<bar> < 2 powi (exponent x + 1)"
proof (cases "1 \<le> \<bar>x\<bar>")
  case True
  define m where "m = \<lfloor>\<bar>x\<bar>\<rfloor>"
  from True have m: "0 < m" by (simp add: m_def)
  then have b1: "1 \<le> bitlen m" by (simp add: bitlen_alt_def)
  from bitlen_bounds [OF m] have "m < 2 ^ nat (bitlen m)" ..
  then have "m + 1 \<le> 2 ^ nat (bitlen m)" by simp
  then have "of_int (m + 1) \<le> (2::rat) ^ nat (bitlen m)"
    by (metis of_int_le_iff of_int_numeral of_int_power)
  moreover have "\<bar>x\<bar> < of_int (m + 1)" unfolding m_def by linarith
  ultimately have "\<bar>x\<bar> < 2 ^ nat (bitlen m)" by simp
  then show ?thesis using True b1
    by (simp add: exponent_def m_def power_int_nonneg_exp)
next
  case False
  assume "x \<noteq> 0"
  define y where "y = 1 / \<bar>x\<bar>"
  define m where "m = \<lceil>y\<rceil>"
  define b where "b = bitlen (m - 1)"
  from False \<open>x \<noteq> 0\<close> have y: "1 < y" by (simp add: y_def)
  then have m: "2 \<le> m" unfolding m_def by (simp add: le_ceiling_iff)
  then have pos: "0 < m - 1" by simp
  then have b1: "1 \<le> b" by (simp add: b_def bitlen_alt_def)
  from bitlen_bounds [OF pos] have "2 ^ nat (b - 1) \<le> m - 1" unfolding b_def ..
  then have "(2::rat) ^ nat (b - 1) \<le> of_int (m - 1)"
    by (metis of_int_le_iff of_int_numeral of_int_power)
  moreover have "of_int (m - 1) < y" unfolding m_def by linarith
  ultimately have "2 ^ nat (b - 1) < y" by simp
  then have "\<bar>x\<bar> < 1 / 2 ^ nat (b - 1)"
    using \<open>x \<noteq> 0\<close> by (simp add: y_def field_simps)
  moreover have "exponent x + 1 = - (b - 1)"
    using False by (simp add: exponent_def b_def m_def y_def)
  moreover have "(2::rat) powi (- (b - 1)) = 1 / 2 ^ nat (b - 1)"
    using b1 power_int_minus_divide [of "2::rat" "b - 1"]
    by (simp add: power_int_nonneg_exp)
  ultimately show ?thesis by (simp only:)
qed


subsection \<open>Rounding to a double\<close>

lemma pow2_le_exp: "(2::rat) powi a \<le> 2 powi b \<Longrightarrow> a \<le> b"
proof (rule ccontr)
  assume le: "(2::rat) powi a \<le> 2 powi b" and "\<not> a \<le> b"
  then have "b < a" by simp
  then have "(2::rat) powi b < 2 powi a" by (rule power_int_strict_increasing) simp
  with le show False by simp
qed

lemma pow2_split: "(2::rat) powi (a + b) = 2 powi a * 2 powi b"
  by (rule power_int_add) simp

lemma expo_neg: "exponent (- x) = exponent x"
  by (simp add: exponent_def)

lemma rd_neg: "double_round (- x) = - double_round x"
  by (simp add: double_round_def expo_neg rhe_neg)

lemma rd_0: "double_round 0 = 0"
  by (simp add: double_round_def)

lemma mantissa_bounds:
  assumes "x \<noteq> 0"
  shows "2 ^ 52 \<le> \<bar>x / 2 powi (exponent x - 52)\<bar>" and "\<bar>x / 2 powi (exponent x - 52)\<bar> < 2 ^ 53"
proof -
  let ?u = "(2::rat) powi (exponent x - 52)"
  have u: "0 < ?u" by simp
  have "2 powi (exponent x) = ?u * 2 ^ 52"
    using pow2_split [of "exponent x - 52" 52] by simp
  with expo_lower [OF assms] have "?u * 2 ^ 52 \<le> \<bar>x\<bar>" by simp
  with u show "2 ^ 52 \<le> \<bar>x / ?u\<bar>"
    by (simp add: abs_divide pos_le_divide_eq mult.commute)
  have "2 powi (exponent x + 1) = ?u * 2 ^ 53"
    using pow2_split [of "exponent x - 52" 53] by (simp add: add.commute)
  with expo_upper [OF assms] have "\<bar>x\<bar> < ?u * 2 ^ 53" by simp
  with u show "\<bar>x / ?u\<bar> < 2 ^ 53"
    by (simp add: abs_divide pos_divide_less_eq mult.commute)
qed

lemma rd_pos: "0 < x \<Longrightarrow> 0 < double_round x"
proof -
  assume x: "0 < x"
  let ?u = "(2::rat) powi (exponent x - 52)"
  have u: "0 < ?u" by simp
  from x have "x \<noteq> 0" by simp
  from mantissa_bounds(1) [OF this] x u have "of_int (2 ^ 52) \<le> x / ?u" by simp
  then have "2 ^ 52 \<le> round_half_even (x / ?u)" by (rule rhe_ge)
  then have "0 < round_half_even (x / ?u)" by simp
  with u x show ?thesis by (simp add: double_round_def)
qed

lemma rd_le_0_iff: "double_round x \<le> 0 \<longleftrightarrow> x \<le> 0"
proof (cases "0 < x")
  case True
  with rd_pos [OF True] show ?thesis by simp
next
  case False
  show ?thesis
  proof (cases "x = 0")
    case True
    then show ?thesis by (simp add: rd_0)
  next
    case nz: False
    with False have "0 < - x" by simp
    then have "0 < double_round (- x)" by (rule rd_pos)
    with False show ?thesis by (simp add: rd_neg)
  qed
qed

lemma div_by_factor: "u \<noteq> 0 \<Longrightarrow> p = u * c \<Longrightarrow> a * p / u = a * (c::rat)"
  by simp

lemma rd_exact:
  assumes m: "\<bar>m\<bar> \<le> 2 ^ 53"
  shows "double_round (of_int m * 2 powi j) = of_int m * 2 powi j"
proof (cases "m = 0")
  case True
  then show ?thesis by (simp add: rd_0)
next
  case False
  let ?x = "of_int m * (2::rat) powi j"
  let ?e = "exponent ?x"
  from False have nz: "?x \<noteq> 0" by simp
  have absx: "\<bar>?x\<bar> = of_int \<bar>m\<bar> * 2 powi j" by (simp add: abs_mult)
  from m have "of_int \<bar>m\<bar> \<le> (2::rat) ^ 53"
    by (metis of_int_le_iff of_int_numeral of_int_power)
  then have "\<bar>?x\<bar> \<le> 2 ^ 53 * 2 powi j"
    unfolding absx by (rule mult_right_mono) simp
  also have "\<dots> = 2 powi (j + 53)" using pow2_split [of j 53] by simp
  finally have "2 powi ?e \<le> (2::rat) powi (j + 53)"
    using expo_lower [OF nz] by simp
  then have e: "?e \<le> j + 53" by (rule pow2_le_exp)
  have "\<exists>k. ?x / 2 powi (?e - 52) = of_int k"
  proof (cases "?e = j + 53")
    case True
    with expo_lower [OF nz] have "2 powi (j + 53) \<le> of_int \<bar>m\<bar> * (2::rat) powi j"
      by (simp only: absx)
    then have "2 ^ 53 * 2 powi j \<le> of_int \<bar>m\<bar> * (2::rat) powi j"
      using pow2_split [of j 53] by (simp add: mult.commute)
    then have "(2::rat) ^ 53 \<le> of_int \<bar>m\<bar>" by simp
    then have "2 ^ 53 \<le> \<bar>m\<bar>"
      by (metis of_int_le_iff of_int_numeral of_int_power)
    with m have "\<bar>m\<bar> = 2 ^ 53" by simp
    then have "m = 2 ^ 53 \<or> m = - (2 ^ 53)" by linarith
    then have "even m" by auto
    then have "m = 2 * (m div 2)" by simp
    then have "(of_int m :: rat) = 2 * of_int (m div 2)"
      by (metis of_int_mult of_int_numeral)
    moreover have "(2::rat) powi (?e - 52) = 2 powi j * 2"
      using True pow2_split [of j 1] by (simp add: add.commute)
    ultimately have "?x / 2 powi (?e - 52) = of_int (m div 2)"
      by (simp add: field_simps)
    then show ?thesis ..
  next
    case False
    with e have "0 \<le> j + 52 - ?e" by simp
    define n where "n = nat (j + 52 - ?e)"
    with \<open>0 \<le> j + 52 - ?e\<close> have n: "j = (?e - 52) + int n" by simp
    have "(2::rat) powi j = 2 powi (?e - 52) * 2 ^ n"
      using pow2_split [of "?e - 52" "int n"] n by simp
    then have "?x / 2 powi (?e - 52) = of_int m * 2 ^ n"
      by (rule div_by_factor [rotated]) simp
    also have "\<dots> = of_int (m * 2 ^ n)" by simp
    finally show ?thesis ..
  qed
  then obtain k where k: "?x / 2 powi (?e - 52) = of_int k" ..
  then have "of_int k * 2 powi (?e - 52) = ?x" by (simp add: field_simps)
  with nz k show ?thesis by (simp add: double_round_def rhe_of_int)
qed

lemma rd_repr: "\<exists>m j. double_round x = of_int m * 2 powi j \<and> \<bar>m\<bar> \<le> 2 ^ 53"
proof (cases "x = 0")
  case True
  then have "double_round x = of_int 0 * 2 powi 0 \<and> \<bar>0::int\<bar> \<le> 2 ^ 53" by (simp add: rd_0)
  then show ?thesis by blast
next
  case False
  let ?y = "x / 2 powi (exponent x - 52)"
  have "\<bar>?y\<bar> < 2 ^ 53" by (rule mantissa_bounds(2) [OF False])
  then have "?y \<le> 2 ^ 53" "- (2 ^ 53) \<le> ?y" by linarith+
  then have "?y \<le> of_int (2 ^ 53)" "of_int (- (2 ^ 53)) \<le> ?y"
    by simp_all
  then have "round_half_even ?y \<le> 2 ^ 53" "- (2 ^ 53) \<le> round_half_even ?y"
    by (simp_all only: rhe_le rhe_ge)
  then have "\<bar>round_half_even ?y\<bar> \<le> 2 ^ 53" by simp
  moreover have "double_round x = of_int (round_half_even ?y) * 2 powi (exponent x - 52)"
    using False by (simp add: double_round_def)
  ultimately show ?thesis by blast
qed

lemma rd_idem: "double_round (double_round x) = double_round x"
proof -
  from rd_repr [of x] obtain m j where "double_round x = of_int m * 2 powi j" "\<bar>m\<bar> \<le> 2 ^ 53"
    by blast
  then show ?thesis by (simp add: rd_exact)
qed

lemma rd_int: "\<bar>n\<bar> \<le> 2 ^ 53 \<Longrightarrow> double_round (of_int n) = of_int n"
  using rd_exact [of n 0] by simp

lemma rd_small: "x \<in> \<int> \<Longrightarrow> \<bar>x\<bar> \<le> 2 ^ 53 \<Longrightarrow> double_round x = x"
proof -
  assume "x \<in> \<int>" and b: "\<bar>x\<bar> \<le> 2 ^ 53"
  then obtain n where x: "x = of_int n" by (auto elim: Ints_cases)
  with b have "of_int \<bar>n\<bar> \<le> (2::rat) ^ 53" by simp
  then have "\<bar>n\<bar> \<le> 2 ^ 53"
    by (metis of_int_le_iff of_int_numeral of_int_power)
  with x show ?thesis by (simp add: rd_int)
qed

lemma rd_err: "\<bar>double_round x - x\<bar> \<le> \<bar>x\<bar> / 2 ^ 53"
proof (cases "x = 0")
  case True
  then show ?thesis by (simp add: rd_0)
next
  case False
  let ?u = "(2::rat) powi (exponent x - 52)"
  let ?y = "x / ?u"
  have u: "0 < ?u" by simp
  have "double_round x - x = (of_int (round_half_even ?y) - ?y) * ?u"
    using False by (simp add: double_round_def field_simps)
  then have "\<bar>double_round x - x\<bar> = \<bar>of_int (round_half_even ?y) - ?y\<bar> * ?u"
    using u by (simp add: abs_mult)
  also have "\<dots> \<le> 1 / 2 * ?u"
    using rhe_err [of ?y] u by (intro mult_right_mono) simp_all
  also have "\<dots> \<le> \<bar>x\<bar> / 2 ^ 53"
  proof -
    have "2 powi (exponent x) = ?u * 2 ^ 52"
      using pow2_split [of "exponent x - 52" 52] by simp
    with expo_lower [OF False] have "?u * 2 ^ 52 \<le> \<bar>x\<bar>" by simp
    then show ?thesis by (simp add: field_simps)
  qed
  finally show ?thesis .
qed



lemma expo_unique:
  assumes "2 powi e \<le> \<bar>x\<bar>" and "\<bar>x\<bar> < 2 powi (e + 1)"
  shows "exponent x = e"
proof -
  from assms(1) have nz: "x \<noteq> 0"
    by (metis abs_zero not_le zero_less_numeral zero_less_power_int)
  from expo_lower [OF nz] assms(2) have "(2::rat) powi (exponent x) \<le> 2 powi (e + 1)" by simp
  then have a: "exponent x \<le> e + 1" by (rule pow2_le_exp)
  have "exponent x \<noteq> e + 1"
  proof
    assume "exponent x = e + 1"
    with expo_lower [OF nz] assms(2) show False by simp
  qed
  from expo_upper [OF nz] assms(1) have "(2::rat) powi e \<le> 2 powi (exponent x + 1)" by simp
  then have "e \<le> exponent x + 1" by (rule pow2_le_exp)
  moreover have "e \<noteq> exponent x + 1"
  proof
    assume "e = exponent x + 1"
    with expo_upper [OF nz] assms(1) show False by simp
  qed
  ultimately show ?thesis using a \<open>exponent x \<noteq> e + 1\<close> by simp
qed

lemma rd_at:
  assumes "2 powi e \<le> \<bar>x\<bar>" and "\<bar>x\<bar> < 2 powi (e + 1)"
  shows "double_round x = of_int (round_half_even (x / 2 powi (e - 52))) * 2 powi (e - 52)"
proof -
  from assms(1) have nz: "x \<noteq> 0"
    by (metis abs_zero not_le zero_less_numeral zero_less_power_int)
  with expo_unique [OF assms] show ?thesis by (simp add: double_round_def)
qed

lemma rhe_near: "\<bar>y - of_int k\<bar> < 1 / 2 \<Longrightarrow> round_half_even y = k"
proof -
  assume near: "\<bar>y - of_int k\<bar> < 1 / 2"
  show ?thesis
  proof (cases "of_int k \<le> y")
    case True
    with near have "\<lfloor>y\<rfloor> = k" by (intro floor_unique) linarith+
    with near True show ?thesis by (simp add: round_half_even_def Let_def)
  next
    case False
    have km: "(of_int (k - 1) :: rat) = of_int k - 1" by simp
    with near False have "of_int (k - 1) \<le> y" "y < of_int (k - 1) + 1" by linarith+
    then have fl: "\<lfloor>y\<rfloor> = k - 1" by (rule floor_unique)
    from False near km have "1 / 2 < y - of_int (k - 1)" by linarith
    with fl show ?thesis by (simp add: round_half_even_def Let_def)
  qed
qed

lemma rhe_tie_down: "y - of_int k = 1 / 2 \<Longrightarrow> even k \<Longrightarrow> round_half_even y = k"
proof -
  assume tie: "y - of_int k = 1 / 2" and ev: "even k"
  then have "\<lfloor>y\<rfloor> = k" by (intro floor_unique) linarith+
  with tie ev show ?thesis by (simp add: round_half_even_def Let_def)
qed

lemma rhe_tie_up: "of_int k - y = 1 / 2 \<Longrightarrow> even k \<Longrightarrow> round_half_even y = k"
proof -
  assume tie: "of_int k - y = 1 / 2" and ev: "even k"
  have km: "(of_int (k - 1) :: rat) = of_int k - 1" by simp
  with tie have "of_int (k - 1) \<le> y" "y < of_int (k - 1) + 1" by linarith+
  then have fl: "\<lfloor>y\<rfloor> = k - 1" by (rule floor_unique)
  from tie km have "y - of_int (k - 1) = 1 / 2" by linarith
  with fl ev show ?thesis by (simp add: round_half_even_def Let_def)
qed


subsection \<open>The operators on whole numbers\<close>

lemma js_small: "\<bar>v\<bar> \<le> 2 ^ 53 \<Longrightarrow> js_number v = of_int v"
  by (simp add: js_number_def rd_int)

lemma dadd_exact: "\<bar>a + b\<bar> \<le> 2 ^ 53 \<Longrightarrow> dadd (of_int a) (of_int b) = of_int (a + b)"
  using rd_int [of "a + b"] by (simp add: dadd_def)

lemma dsub_exact: "\<bar>a - b\<bar> \<le> 2 ^ 53 \<Longrightarrow> dsub (of_int a) (of_int b) = of_int (a - b)"
  using rd_int [of "a - b"] by (simp add: dsub_def)

lemma dsub_le_0_iff: "dsub x y \<le> 0 \<longleftrightarrow> x \<le> y"
  by (simp add: dsub_def rd_le_0_iff)

lemma dadd_0_js: "dadd 0 (js_number v) = js_number v"
  by (simp add: dadd_def js_number_def rd_idem)

text \<open>
  The quotient rounded and its hundredfold rounded again is within a relative
  \<open>2 ^ 51\<close>-th of the exact percentage.
\<close>

lemma percent_err:
  "\<bar>dmul (ddiv t g) 100 - t / g * 100\<bar> \<le> \<bar>t / g * 100\<bar> / 2 ^ 51"
proof -
  define q where "q = t / g"
  define x1 where "x1 = double_round q"
  define x2 where "x2 = double_round (x1 * 100)"
  define a where "a = \<bar>q\<bar>"
  define c :: rat where "c = 2 ^ 53"
  define d where "d = a / c"
  have a: "0 \<le> a" by (simp add: a_def)
  have c1: "1 \<le> c" unfolding c_def by (rule one_le_power) simp
  then have c0: "0 < c" by linarith
  have c4: "c = 4 * 2 ^ 51" unfolding c_def by simp
  have d0: "0 \<le> d" unfolding d_def using a c0 by (intro divide_nonneg_pos)
  have "a / c \<le> a / 1" using a c1 by (intro divide_left_mono) simp_all
  then have da: "d \<le> a" by (simp add: d_def)
  have "\<bar>double_round q - q\<bar> \<le> \<bar>q\<bar> / 2 ^ 53" by (rule rd_err)
  then have e1: "\<bar>x1 - q\<bar> \<le> d" by (simp only: x1_def d_def a_def c_def)
  from e1 da have x1: "\<bar>x1\<bar> \<le> 2 * a" unfolding a_def by linarith
  have "\<bar>double_round (x1 * 100) - x1 * 100\<bar> \<le> \<bar>x1 * 100\<bar> / 2 ^ 53" by (rule rd_err)
  then have "\<bar>x2 - x1 * 100\<bar> \<le> \<bar>x1 * 100\<bar> / c" by (simp only: x2_def c_def)
  also have "\<bar>x1 * 100\<bar> = 100 * \<bar>x1\<bar>" by (simp add: abs_mult)
  also have "100 * \<bar>x1\<bar> / c \<le> 100 * (2 * a) / c"
    using x1 c0 by (intro divide_right_mono) simp_all
  also have "100 * (2 * a) / c = 200 * d" by (simp add: d_def)
  finally have e2: "\<bar>x2 - x1 * 100\<bar> \<le> 200 * d" .
  have "x2 - q * 100 = (x2 - x1 * 100) + 100 * (x1 - q)" by (simp add: algebra_simps)
  with e1 e2 have "\<bar>x2 - q * 100\<bar> \<le> 300 * d" by linarith
  with d0 have "\<bar>x2 - q * 100\<bar> \<le> 400 * d" by linarith
  also have "400 * d = \<bar>q * 100\<bar> / 2 ^ 51"
    using c0 by (simp add: d_def a_def abs_mult c4)
  finally show ?thesis
    by (simp only: x2_def x1_def q_def dmul_def ddiv_def)
qed

subsection \<open>The income reduce\<close>

lemma sum_nett_gp_Nil: "sum_nett_gp [] = 0"
  by (simp add: sum_nett_gp_def)

lemma sum_nett_gp_snoc:
  "sum_nett_gp (ps @ [p]) = dadd (sum_nett_gp ps) (js_number (nett_gp p))"
  by (simp add: sum_nett_gp_def)

lemma sum_nett_gp_double: "double_round (sum_nett_gp ps) = sum_nett_gp ps"
  by (cases ps rule: rev_cases) (simp_all add: sum_nett_gp_Nil sum_nett_gp_snoc rd_0 dadd_def rd_idem)

lemma abs_total_nonneg: "0 \<le> abs_total ps"
  by (induction ps) (simp_all add: abs_total_def)

lemma abs_total_append: "abs_total (ps @ qs) = abs_total ps + abs_total qs"
  by (simp add: abs_total_def)

lemma abs_income_le: "\<bar>sum_list (map nett_gp ps)\<bar> \<le> abs_total ps"
proof (induction ps)
  case Nil
  show ?case by (simp add: abs_total_def)
next
  case (Cons p ps)
  have "abs_total (p # ps) = \<bar>nett_gp p\<bar> + abs_total ps"
    by (simp add: abs_total_def)
  moreover have "sum_list (map nett_gp (p # ps)) = nett_gp p + sum_list (map nett_gp ps)"
    by simp
  ultimately show ?case using Cons by linarith
qed

lemma abs_total_filter: "abs_total (filter P ps) \<le> abs_total ps"
proof (induction ps)
  case Nil
  show ?case by simp
next
  case (Cons p ps)
  have h: "abs_total (p # ps) = \<bar>nett_gp p\<bar> + abs_total ps"
    by (simp add: abs_total_def)
  show ?case
  proof (cases "P p")
    case True
    then have "abs_total (filter P (p # ps)) = \<bar>nett_gp p\<bar> + abs_total (filter P ps)"
      by (simp add: abs_total_def)
    with h Cons show ?thesis by linarith
  next
    case False
    then have "abs_total (filter P (p # ps)) = abs_total (filter P ps)"
      by simp
    with h Cons show ?thesis by linarith
  qed
qed

lemma sum_nett_gp_exact:
  "abs_total ps \<le> 2 ^ 53 \<Longrightarrow> sum_nett_gp ps = of_int (sum_list (map nett_gp ps))"
proof (induction ps rule: rev_induct)
  case Nil
  show ?case by (simp add: sum_nett_gp_Nil)
next
  case (snoc p ps)
  from snoc.prems have b: "abs_total ps + \<bar>nett_gp p\<bar> \<le> 2 ^ 53"
    by (simp add: abs_total_def)
  with abs_total_nonneg [of ps] have "\<bar>nett_gp p\<bar> \<le> 2 ^ 53" by linarith
  then have js: "js_number (nett_gp p) = of_int (nett_gp p)" by (rule js_small)
  from b have "abs_total ps \<le> 2 ^ 53" by linarith
  then have ih: "sum_nett_gp ps = of_int (sum_list (map nett_gp ps))" by (rule snoc.IH)
  from b abs_income_le [of ps] have "\<bar>sum_list (map nett_gp ps) + nett_gp p\<bar> \<le> 2 ^ 53"
    by linarith
  then show ?case
    by (simp add: sum_nett_gp_snoc ih js dadd_exact)
qed

lemma sum_nett_gp_filter_exact:
  "abs_total ps \<le> 2 ^ 53 \<Longrightarrow>
   sum_nett_gp (filter P ps) = of_int (sum_list (map nett_gp (filter P ps)))"
  using abs_total_filter [of P ps] by (intro sum_nett_gp_exact) linarith

subsection \<open>Rounding at the example amounts\<close>

lemma round_2_53_plus_1: "double_round 9007199254740993 = 9007199254740992"
proof -
  have "round_half_even (9007199254740993 / 2) = 4503599627370496"
    by (rule rhe_tie_down) simp_all
  then show ?thesis
    by (subst rd_at [where e = 53]) simp_all
qed

lemma round_7_25: "double_round (7 / 25) = 5044031582654956 / 18014398509481984"
proof -
  have "round_half_even (126100789566373888 / 25) = 5044031582654956"
    by (rule rhe_near) simp
  then show ?thesis
    by (subst rd_at [where e = "-2"]) (simp_all add: power_int_minus_divide)
qed

lemma round_7_25_percent:
  "double_round (double_round (7 / 25) * 100) = 7881299347898369 / 281474976710656"
proof -
  have "round_half_even (31525197391593475 / 4) = 7881299347898369"
    by (rule rhe_near) simp
  then show ?thesis
    unfolding round_7_25
    by (subst rd_at [where e = 4]) (simp_all add: power_int_minus_divide)
qed

section \<open>Facts about maps and sorting\<close>

subsection \<open>Insertion-ordered maps\<close>

lemma map_get_map_set:
  "map_get (map_set m k v) k' = (if k' = k then Some v else map_get m k')"
  by (induction m) auto

lemma keys_map_set: "set (map fst (map_set m k v)) = insert k (set (map fst m))"
  by (induction m) (auto split: if_splits simp: rev_image_eqI)

lemma distinct_map_set: "distinct (map fst m) \<Longrightarrow> distinct (map fst (map_set m k v))"
proof (induction m)
  case Nil
  then show ?case by simp
next
  case (Cons e m)
  obtain k' v' where e: "e = (k', v')" by (cases e)
  show ?case
  proof (cases "k' = k")
    case True
    with Cons.prems e show ?thesis by simp
  next
    case False
    have "k' \<notin> set (map fst (map_set m k v))"
      using Cons.prems e False unfolding keys_map_set by simp
    with Cons e False show ?thesis by simp
  qed
qed

lemma mem_distinct_map_get:
  "distinct (map fst m) \<Longrightarrow> (k, v) \<in> set m \<Longrightarrow> map_get m k = Some v"
  by (induction m) (auto simp: rev_image_eqI)

lemma sum_nat_map_set:
  fixes f :: "'v \<Rightarrow> nat"
  shows "sum_list (map (\<lambda>e. f (snd e)) (map_set m k v))
           + (case map_get m k of None \<Rightarrow> 0 | Some c \<Rightarrow> f c)
         = sum_list (map (\<lambda>e. f (snd e)) m) + f v"
  by (induction m) auto

lemma or_zero_Some [simp]: "or_zero (Some v) = v"
  by (simp add: or_zero_def)

lemma or_zero_None [simp]: "or_zero None = 0"
  by (simp add: or_zero_def)

subsection \<open>The stable sort\<close>

lemma set_insert_by: "set (insert_by cmp x xs) = insert x (set xs)"
  by (induction xs) auto


lemma set_sort_by: "set (sort_by cmp xs) = set xs"
  by (induction xs) (simp_all add: sort_by_def set_insert_by)


lemma sum_insert_by:
  fixes f :: "'a \<Rightarrow> 'b::comm_monoid_add"
  shows "sum_list (map f (insert_by cmp x xs)) = f x + sum_list (map f xs)"
  by (induction xs) (auto simp: add.left_commute)

lemma sum_sort_by:
  fixes f :: "'a \<Rightarrow> 'b::comm_monoid_add"
  shows "sum_list (map f (sort_by cmp xs)) = sum_list (map f xs)"
proof (induction xs)
  case Nil
  show ?case by (simp add: sort_by_def)
next
  case (Cons x xs)
  have "sort_by cmp (x # xs) = insert_by cmp x (sort_by cmp xs)"
    by (simp add: sort_by_def)
  with Cons show ?case by (simp add: sum_insert_by)
qed

lemma distinct_insert_by:
  "distinct (map g (insert_by cmp x xs)) \<longleftrightarrow> g x \<notin> g ` set xs \<and> distinct (map g xs)"
  by (induction xs) (auto simp: set_insert_by)

lemma distinct_sort_by: "distinct (map g (sort_by cmp xs)) \<longleftrightarrow> distinct (map g xs)"
proof (induction xs)
  case Nil
  show ?case by (simp add: sort_by_def)
next
  case (Cons x xs)
  have "sort_by cmp (x # xs) = insert_by cmp x (sort_by cmp xs)"
    by (simp add: sort_by_def)
  with Cons show ?case by (simp add: distinct_insert_by set_sort_by)
qed

text \<open>
  A comparator that is at most 0 exactly when its second argument's key is at most the
  first's, as the rounded difference of the keys is, sorts by that key in descending
  order.
\<close>

lemma sorted_insert_by:
  fixes f :: "'a \<Rightarrow> number"
  assumes cmp: "\<And>a b. cmp a b \<le> 0 \<longleftrightarrow> f b \<le> f a"
    and srt: "sorted_wrt (\<lambda>a b. f b \<le> f a) xs"
  shows "sorted_wrt (\<lambda>a b. f b \<le> f a) (insert_by cmp x xs)"
  using srt
proof (induction xs)
  case Nil
  show ?case by simp
next
  case (Cons y ys)
  show ?case
  proof (cases "cmp x y \<le> 0")
    case True
    then have "f y \<le> f x" by (simp add: cmp)
    with Cons.prems True show ?thesis by fastforce
  next
    case False
    then have "f x \<le> f y" using cmp [of x y] by simp
    with Cons False show ?thesis by (auto simp: set_insert_by)
  qed
qed

lemma sorted_sort_by:
  fixes f :: "'a \<Rightarrow> number"
  assumes cmp: "\<And>a b. cmp a b \<le> 0 \<longleftrightarrow> f b \<le> f a"
  shows "sorted_wrt (\<lambda>a b. f b \<le> f a) (sort_by cmp xs)"
proof (induction xs)
  case Nil
  show ?case by (simp add: sort_by_def)
next
  case (Cons x xs)
  have "sort_by cmp (x # xs) = insert_by cmp x (sort_by cmp xs)"
    by (simp add: sort_by_def)
  with Cons show ?case by (simp add: sorted_insert_by [OF cmp])
qed

lemma sorted_wrt_adjacent:
  "sorted_wrt P xs \<Longrightarrow> Suc i < length xs \<Longrightarrow> P (xs ! i) (xs ! Suc i)"
  by (simp add: sorted_wrt_iff_nth_less)


subsection \<open>The grouping loop\<close>

lemma sum_nett_gp_single: "sum_nett_gp [p] = dadd 0 (js_number (nett_gp p))"
  by (simp add: sum_nett_gp_def)

lemma group_step_get:
  "map_get (group_step keyOf m p) k =
     (if k = keyOf p
      then Some (dadd (fst (case map_get m k of None \<Rightarrow> (0, 0) | Some c \<Rightarrow> c))
                   (js_number (nett_gp p)),
                 snd (case map_get m k of None \<Rightarrow> (0, 0) | Some c \<Rightarrow> c) + 1)
      else map_get m k)"
  by (simp add: group_step_def Let_def map_get_map_set)

lemma group_get:
  "map_get (foldl (group_step keyOf) [] ps) k =
     (if k \<in> keyOf ` set ps
      then Some (sum_nett_gp (filter (\<lambda>p. keyOf p = k) ps),
                 length (filter (\<lambda>p. keyOf p = k) ps))
      else None)"
proof (induction ps rule: rev_induct)
  case Nil
  show ?case by simp
next
  case (snoc p ps)
  show ?case
  proof (cases "k = keyOf p")
    case True
    show ?thesis
    proof (cases "keyOf p \<in> keyOf ` set ps")
      case seen: True
      with snoc True show ?thesis by (simp add: group_step_get sum_nett_gp_snoc sum_nett_gp_single)
    next
      case fresh: False
      then have "filter (\<lambda>q. keyOf q = keyOf p) ps = []"
        by (force simp: filter_empty_conv image_iff)
      with snoc True fresh show ?thesis by (simp add: group_step_get sum_nett_gp_snoc sum_nett_gp_single)
    qed
  next
    case False
    then have "keyOf p \<noteq> k" by blast
    with snoc False show ?thesis by (simp add: group_step_get sum_nett_gp_snoc sum_nett_gp_single)
  qed
qed

lemma group_keys: "set (map fst (foldl (group_step keyOf) [] ps)) = keyOf ` set ps"
proof (induction ps rule: rev_induct)
  case Nil
  show ?case by simp
next
  case (snoc p ps)
  have "set (map fst (group_step keyOf m p)) = insert (keyOf p) (set (map fst m))" for m
    unfolding group_step_def Let_def by (rule keys_map_set)
  with snoc show ?case by simp
qed

lemma group_distinct: "distinct (map fst (foldl (group_step keyOf) [] ps))"
proof (induction ps rule: rev_induct)
  case Nil
  show ?case by simp
next
  case (snoc p ps)
  have "distinct (map fst m) \<Longrightarrow> distinct (map fst (group_step keyOf m p))" for m
    unfolding group_step_def Let_def by (rule distinct_map_set)
  with snoc show ?case by simp
qed


lemma group_entry:
  assumes "(k, t, c) \<in> set (foldl (group_step keyOf) [] ps)"
  shows "k \<in> keyOf ` set ps
       \<and> t = sum_nett_gp (filter (\<lambda>p. keyOf p = k) ps)
       \<and> c = length (filter (\<lambda>p. keyOf p = k) ps)"
proof -
  have k: "k \<in> keyOf ` set ps"
    using assms group_keys [of keyOf ps] by force
  have "map_get (foldl (group_step keyOf) [] ps) k = Some (t, c)"
    using assms by (rule mem_distinct_map_get [OF group_distinct])
  with k show ?thesis by (simp add: group_get)
qed

lemma group_step_count_sum:
  "sum_list (map (\<lambda>e. snd (snd e)) (group_step keyOf m p))
   = sum_list (map (\<lambda>e. snd (snd e)) m) + 1"
proof (cases "map_get m (keyOf p)")
  case None
  with sum_nat_map_set [of snd m "keyOf p" "(dadd 0 (js_number (nett_gp p)), 1)"] show ?thesis
    by (simp add: group_step_def)
next
  case (Some c)
  with sum_nat_map_set [of snd m "keyOf p" "(dadd (fst c) (js_number (nett_gp p)), snd c + 1)"]
  show ?thesis
    by (simp add: group_step_def)
qed

lemma group_count_sum:
  "sum_list (map (\<lambda>e. snd (snd e)) (foldl (group_step keyOf) [] ps)) = length ps"
  by (induction ps rule: rev_induct) (simp_all add: group_step_count_sum)




lemma ranked_entry:
  assumes "e \<in> set (sort_by by_income_desc (map to_ranking (foldl (group_step keyOf) [] ps)))"
  shows "rkey e \<in> keyOf ` set ps
       \<and> r_totalIncome e = sum_nett_gp (filter (\<lambda>p. keyOf p = rkey e) ps)
       \<and> projectCount e = length (filter (\<lambda>p. keyOf p = rkey e) ps)"
proof -
  from assms obtain g where g: "g \<in> set (foldl (group_step keyOf) [] ps)" and e: "e = to_ranking g"
    by (auto simp: set_sort_by)
  obtain k t c where gk: "g = (k, t, c)" by (cases g)
  from group_entry [of k t c keyOf ps] g gk e show ?thesis
    by (simp add: to_ranking_def)
qed

lemma ranked_count_sum:
  "sum_list (map projectCount (sort_by by_income_desc (map to_ranking (foldl (group_step keyOf) [] ps))))
   = length ps"
  by (simp add: sum_sort_by to_ranking_def comp_def group_count_sum)

lemma filter_key_nonempty:
  "k \<in> keyOf ` set ps \<Longrightarrow> 1 \<le> length (filter (\<lambda>p. keyOf p = k) ps)"
proof -
  assume "k \<in> keyOf ` set ps"
  then obtain p where "p \<in> set ps" "keyOf p = k" by auto
  then have "p \<in> set (filter (\<lambda>p. keyOf p = k) ps)" by simp
  then have "filter (\<lambda>p. keyOf p = k) ps \<noteq> []" by force
  then show ?thesis by (cases "filter (\<lambda>p. keyOf p = k) ps") simp_all
qed

subsection \<open>The summing loop\<close>

lemma sum_step_get:
  "map_get (sum_step keyOf m p) k =
     (if k = keyOf p then Some (dadd (or_zero (map_get m k)) (js_number (nett_gp p)))
      else map_get m k)"
  by (simp add: sum_step_def map_get_map_set)

lemma sum_get:
  "map_get (foldl (sum_step keyOf) [] ps) k =
     (if k \<in> keyOf ` set ps
      then Some (sum_nett_gp (filter (\<lambda>p. keyOf p = k) ps))
      else None)"
proof (induction ps rule: rev_induct)
  case Nil
  show ?case by simp
next
  case (snoc p ps)
  show ?case
  proof (cases "k = keyOf p")
    case True
    show ?thesis
    proof (cases "keyOf p \<in> keyOf ` set ps")
      case seen: True
      with snoc True show ?thesis by (simp add: sum_step_get sum_nett_gp_snoc sum_nett_gp_single)
    next
      case fresh: False
      then have "filter (\<lambda>q. keyOf q = keyOf p) ps = []"
        by (force simp: filter_empty_conv image_iff)
      with snoc True fresh show ?thesis by (simp add: sum_step_get sum_nett_gp_snoc sum_nett_gp_single)
    qed
  next
    case False
    then have "keyOf p \<noteq> k" by blast
    with snoc False show ?thesis by (simp add: sum_step_get sum_nett_gp_snoc sum_nett_gp_single)
  qed
qed

lemma sum_keys: "set (map fst (foldl (sum_step keyOf) [] ps)) = keyOf ` set ps"
proof (induction ps rule: rev_induct)
  case Nil
  show ?case by simp
next
  case (snoc p ps)
  have "set (map fst (sum_step keyOf m p)) = insert (keyOf p) (set (map fst m))" for m
    unfolding sum_step_def by (rule keys_map_set)
  with snoc show ?case by simp
qed

lemma sum_distinct: "distinct (map fst (foldl (sum_step keyOf) [] ps))"
proof (induction ps rule: rev_induct)
  case Nil
  show ?case by simp
next
  case (snoc p ps)
  have "distinct (map fst m) \<Longrightarrow> distinct (map fst (sum_step keyOf m p))" for m
    unfolding sum_step_def by (rule distinct_map_set)
  with snoc show ?case by simp
qed

lemma sum_entry:
  assumes "(k, v) \<in> set (foldl (sum_step keyOf) [] ps)"
  shows "k \<in> keyOf ` set ps \<and> v = sum_nett_gp (filter (\<lambda>p. keyOf p = k) ps)"
proof -
  have k: "k \<in> keyOf ` set ps"
    using assms sum_keys [of keyOf ps] by force
  have "map_get (foldl (sum_step keyOf) [] ps) k = Some v"
    using assms by (rule mem_distinct_map_get [OF sum_distinct])
  with k show ?thesis by (simp add: sum_get)
qed


subsection \<open>The product leaderboard's loop\<close>

lemma map_get_map_proj:
  "map_get (map (\<lambda>e. (fst e, g (snd e))) m) k = map_option g (map_get m k)"
  by (induction m) auto

lemma map_proj_map_set:
  "map (\<lambda>e. (fst e, g (snd e))) (map_set m k v) = map_set (map (\<lambda>e. (fst e, g (snd e))) m) k (g v)"
  by (induction m) auto

lemma product_step_proj:
  "map (\<lambda>e. (fst e, fst (snd e), fst (snd (snd e)))) (product_step m p)
   = group_step (\<lambda>p. or_NA (product p)) (map (\<lambda>e. (fst e, fst (snd e), fst (snd (snd e)))) m) p"
proof -
  have set_proj: "map (\<lambda>e. (fst e, fst (snd e), fst (snd (snd e)))) (map_set m' k v)
        = map_set (map (\<lambda>e. (fst e, fst (snd e), fst (snd (snd e)))) m') k (fst v, fst (snd v))"
    for m' :: "(string \<times> product_entry) list" and k v
    using map_proj_map_set [of "\<lambda>v. (fst v, fst (snd v))" m' k v] by simp
  have get_proj: "map_get (map (\<lambda>e. (fst e, fst (snd e), fst (snd (snd e)))) m') k
        = map_option (\<lambda>v. (fst v, fst (snd v))) (map_get m' k)"
    for m' :: "(string \<times> product_entry) list" and k
    using map_get_map_proj [of "\<lambda>v. (fst v, fst (snd v))" m' k] by simp
  show ?thesis
    by (cases "map_get m (or_NA (product p))")
      (simp_all add: product_step_def group_step_def Let_def set_proj get_proj)
qed

lemma productMap_proj:
  "map (\<lambda>e. (fst e, fst (snd e), fst (snd (snd e)))) (TopProducts_productMap ps)
   = foldl (group_step (\<lambda>p. or_NA (product p))) [] ps"
  unfolding TopProducts_productMap_def
  by (induction ps rule: rev_induct) (simp_all add: product_step_proj)

lemma product_step_get:
  "map_get (product_step m p) k =
     (if k = or_NA (product p)
      then (case map_get m k of
              None \<Rightarrow> Some (dadd 0 (js_number (nett_gp p)), 1, sum_step pic [] p)
            | Some c \<Rightarrow> Some (dadd (fst c) (js_number (nett_gp p)), fst (snd c) + 1,
                               sum_step pic (snd (snd c)) p))
      else map_get m k)"
  by (simp add: product_step_def Let_def map_get_map_set sum_step_def split: option.splits)

lemma productMap_get:
  "map_get (TopProducts_productMap ps) k =
     (if k \<in> (\<lambda>p. or_NA (product p)) ` set ps
      then Some (sum_nett_gp (filter (\<lambda>p. or_NA (product p) = k) ps),
                 length (filter (\<lambda>p. or_NA (product p) = k) ps),
                 foldl (sum_step pic) [] (filter (\<lambda>p. or_NA (product p) = k) ps))
      else None)"
  unfolding TopProducts_productMap_def
proof (induction ps rule: rev_induct)
  case Nil
  show ?case by simp
next
  case (snoc p ps)
  show ?case
  proof (cases "k = or_NA (product p)")
    case True
    show ?thesis
    proof (cases "or_NA (product p) \<in> (\<lambda>p. or_NA (product p)) ` set ps")
      case seen: True
      with snoc True show ?thesis by (simp add: product_step_get sum_nett_gp_snoc sum_nett_gp_single)
    next
      case fresh: False
      then have "filter (\<lambda>q. or_NA (product q) = or_NA (product p)) ps = []"
        by (force simp: filter_empty_conv image_iff)
      with snoc True fresh show ?thesis by (simp add: product_step_get sum_nett_gp_snoc sum_nett_gp_single)
    qed
  next
    case False
    then have "or_NA (product p) \<noteq> k" by blast
    with snoc False show ?thesis by (simp add: product_step_get sum_nett_gp_snoc sum_nett_gp_single)
  qed
qed

lemma productMap_distinct: "distinct (map fst (TopProducts_productMap ps))"
proof -
  have "map fst (TopProducts_productMap ps)
        = map fst (map (\<lambda>e. (fst e, fst (snd e), fst (snd (snd e)))) (TopProducts_productMap ps))"
    by simp
  then show ?thesis
    by (simp only: productMap_proj group_distinct)
qed


lemma productMap_entry:
  assumes "(k, t, c, pm) \<in> set (TopProducts_productMap ps)"
  shows "k \<in> (\<lambda>p. or_NA (product p)) ` set ps
       \<and> t = sum_nett_gp (filter (\<lambda>p. or_NA (product p) = k) ps)
       \<and> c = length (filter (\<lambda>p. or_NA (product p) = k) ps)
       \<and> pm = foldl (sum_step pic) [] (filter (\<lambda>p. or_NA (product p) = k) ps)"
proof -
  have get: "map_get (TopProducts_productMap ps) k = Some (t, c, pm)"
    using assms by (rule mem_distinct_map_get [OF productMap_distinct])
  then have "k \<in> (\<lambda>p. or_NA (product p)) ` set ps"
    by (simp add: productMap_get split: if_splits)
  with get show ?thesis by (simp add: productMap_get)
qed

lemma productMap_count_sum:
  "sum_list (map (\<lambda>e. fst (snd (snd e))) (TopProducts_productMap ps)) = length ps"
proof -
  have "sum_list (map (\<lambda>e. fst (snd (snd e))) (TopProducts_productMap ps))
        = sum_list (map (\<lambda>e. snd (snd e))
            (map (\<lambda>e. (fst e, fst (snd e), fst (snd (snd e)))) (TopProducts_productMap ps)))"
    by (simp add: comp_def)
  then show ?thesis
    by (simp only: productMap_proj group_count_sum)
qed


subsection \<open>Exact sums over groups\<close>

lemma of_int_sum_list: "(of_int (sum_list xs) :: number) = sum_list (map of_int xs)"
  by (induction xs) simp_all

lemma sum_indicator:
  fixes c :: int
  shows "distinct ks \<Longrightarrow> k0 \<in> set ks \<Longrightarrow> sum_list (map (\<lambda>k. if k0 = k then c else 0) ks) = c"
proof (induction ks)
  case Nil
  then show ?case by simp
next
  case (Cons k ks)
  show ?case
  proof (cases "k0 = k")
    case True
    with Cons.prems have "k0 \<notin> set ks" by simp
    then have "sum_list (map (\<lambda>k. if k0 = k then c else 0) ks) = 0"
      by (induction ks) auto
    with True show ?thesis by simp
  next
    case False
    with Cons show ?thesis by simp
  qed
qed

text \<open>Distinct keys that cover the records split the exact income into the groups' incomes.\<close>

lemma partition_sum:
  assumes "distinct ks" and "keyOf ` set ps \<subseteq> set ks"
  shows "sum_list (map (\<lambda>k. sum_list (map nett_gp (filter (\<lambda>p. keyOf p = k) ps))) ks)
         = sum_list (map nett_gp ps)"
  using assms(2)
proof (induction ps)
  case Nil
  show ?case by simp
next
  case (Cons p ps)
  have "sum_list (map (\<lambda>k. sum_list (map nett_gp (filter (\<lambda>p. keyOf p = k) (p # ps)))) ks)
        = sum_list (map (\<lambda>k. (if keyOf p = k then nett_gp p else 0)
                          + sum_list (map nett_gp (filter (\<lambda>p. keyOf p = k) ps))) ks)"
    by (intro arg_cong [where f = sum_list] map_cong) simp_all
  also have "\<dots> = sum_list (map (\<lambda>k. if keyOf p = k then nett_gp p else 0) ks)
        + sum_list (map (\<lambda>k. sum_list (map nett_gp (filter (\<lambda>p. keyOf p = k) ps))) ks)"
    by (simp add: sum_list_addf)
  also have "sum_list (map (\<lambda>k. if keyOf p = k then nett_gp p else 0) ks) = nett_gp p"
    using assms(1) Cons.prems by (intro sum_indicator) simp_all
  also have "sum_list (map (\<lambda>k. sum_list (map nett_gp (filter (\<lambda>p. keyOf p = k) ps))) ks)
        = sum_list (map nett_gp ps)"
    using Cons by simp
  finally show ?case by simp
qed

text \<open>
  While the absolute amounts sum to at most \<open>2 ^ 53\<close>, the values of a summing loop
  are the exact group incomes and add up to the exact income.
\<close>

lemma sum_loop_values:
  assumes "abs_total ps \<le> 2 ^ 53"
  shows "map snd (foldl (sum_step keyOf) [] ps)
         = map (\<lambda>k. of_int (sum_list (map nett_gp (filter (\<lambda>p. keyOf p = k) ps))))
             (map fst (foldl (sum_step keyOf) [] ps))"
proof -
  have "snd e = of_int (sum_list (map nett_gp (filter (\<lambda>p. keyOf p = fst e) ps)))"
    if "e \<in> set (foldl (sum_step keyOf) [] ps)" for e
  proof -
    from that have "(fst e, snd e) \<in> set (foldl (sum_step keyOf) [] ps)" by simp
    from sum_entry [OF this] have "snd e = sum_nett_gp (filter (\<lambda>p. keyOf p = fst e) ps)"
      by simp
    with sum_nett_gp_filter_exact [OF assms] show ?thesis by simp
  qed
  then show ?thesis by (simp add: comp_def)
qed

lemma sum_loop_total:
  assumes "abs_total ps \<le> 2 ^ 53"
  shows "sum_list (map snd (foldl (sum_step keyOf) [] ps)) = of_int (sum_list (map nett_gp ps))"
proof -
  let ?ks = "map fst (foldl (sum_step keyOf) [] ps)"
  have "sum_list (map snd (foldl (sum_step keyOf) [] ps))
        = sum_list (map of_int
            (map (\<lambda>k. sum_list (map nett_gp (filter (\<lambda>p. keyOf p = k) ps))) ?ks))"
    by (simp only: sum_loop_values [OF assms] map_map comp_def)
  also have "\<dots> = of_int (sum_list
            (map (\<lambda>k. sum_list (map nett_gp (filter (\<lambda>p. keyOf p = k) ps))) ?ks))"
    by (simp only: of_int_sum_list)
  also have "sum_list (map (\<lambda>k. sum_list (map nett_gp (filter (\<lambda>p. keyOf p = k) ps))) ?ks)
        = sum_list (map nett_gp ps)"
    by (rule partition_sum) (simp_all only: sum_distinct sum_keys subset_refl)
  finally show ?thesis .
qed

subsection \<open>Evaluating the operators on whole numbers\<close>

lemma dadd_int: "x \<in> \<int> \<Longrightarrow> y \<in> \<int> \<Longrightarrow> \<bar>x + y\<bar> \<le> 2 ^ 53 \<Longrightarrow> dadd x y = x + y"
  by (simp add: dadd_def rd_small)

lemma dsub_int: "x \<in> \<int> \<Longrightarrow> y \<in> \<int> \<Longrightarrow> \<bar>x - y\<bar> \<le> 2 ^ 53 \<Longrightarrow> dsub x y = x - y"
  by (simp add: dsub_def rd_small)

lemma round_3_2: "double_round (3 / 2) = 3 / 2"
  using rd_exact [of 3 "- 1"] by (simp add: power_int_minus_divide)

lemma round_2_53_plus_2: "double_round 9007199254740994 = 9007199254740994"
  using rd_exact [of 4503599627370497 1] by simp

section \<open>Dashboard statistics\<close>

lemma stats_fields:
  "totalIncome (fetchDashboardData_stats ps t) = sum_nett_gp ps"
  "target (fetchDashboardData_stats ps t) = or_zero (target_field t ''yearly_target'')"
  "gap (fetchDashboardData_stats ps t)
     = dsub (or_zero (target_field t ''yearly_target'')) (sum_nett_gp ps)"
  "quarterlyData (fetchDashboardData_stats ps t) = map (quarterly_entry ps t) quarter_labels"
  "categoryData (fetchDashboardData_stats ps t)
     = map (\<lambda>(n, v). \<lparr> name = n, val = v \<rparr>) (categoryMap ps)"
  by (simp_all add: fetchDashboardData_stats_def Let_def)

lemma stats_achievement:
  "achievement (fetchDashboardData_stats ps t) =
     (if or_zero (target_field t ''yearly_target'') > 0
      then dmul (ddiv (sum_nett_gp ps) (or_zero (target_field t ''yearly_target''))) 100
      else 0)"
  by (simp add: fetchDashboardData_stats_def Let_def)

lemma target_exact:
  "\<bar>yearly_or_0 t\<bar> \<le> 2 ^ 53 \<Longrightarrow>
   or_zero (target_field t ''yearly_target'') = of_int (yearly_or_0 t)"
  by (cases t) (simp_all add: target_field_def yearly_or_0_def js_small)

lemma ex_target_yearly: "or_zero (target_field (Some ex_target) ''yearly_target'') = 200"
  by (simp add: target_field_def ex_target_def js_small)

lemma ex_income: "sum_nett_gp [ex_p1, ex_p2] = 300"
  by (simp add: sum_nett_gp_def ex_p1_def ex_p2_def js_small dadd_int)

lemma ex_abs_total: "abs_total [ex_p1, ex_p2] = 300"
  by (simp add: abs_total_def ex_p1_def ex_p2_def)

lemma ex_big_income: "sum_nett_gp [ex_big, ex_one1, ex_one2] = 9007199254740992"
  by (simp add: sum_nett_gp_def ex_big_def ex_one1_def ex_one2_def js_small dadd_int)
    (simp add: dadd_def round_2_53_plus_1)

text \<open>
  C1. For every record list and every target row (or none): when the target is positive,
  the achievement percentage is the double quotient totalIncome / target times 100 in
  double arithmetic, which lies within a relative \<open>2 ^ 51\<close>-th of the exact value of
  totalIncome / target * 100; when the target is 0 or less it is 0, whatever the income.
  The gap is target - totalIncome in double arithmetic. When the absolute amounts of the
  records and the yearly target together are at most \<open>2 ^ 53\<close>, totalIncome is the exact
  sum of the records' nett_gp, the target is the yearly target (0 without a row) and the
  gap is target - totalIncome exactly, also when the income exceeds the target.
\<close>

theorem C1_achievement_and_gap:
  "(target (fetchDashboardData_stats ps t) > 0 \<longrightarrow>
      achievement (fetchDashboardData_stats ps t)
        = dmul (ddiv (totalIncome (fetchDashboardData_stats ps t))
                     (target (fetchDashboardData_stats ps t))) 100
      \<and> \<bar>achievement (fetchDashboardData_stats ps t)
           - totalIncome (fetchDashboardData_stats ps t)
               / target (fetchDashboardData_stats ps t) * 100\<bar>
          \<le> \<bar>totalIncome (fetchDashboardData_stats ps t)
               / target (fetchDashboardData_stats ps t) * 100\<bar> / 2 ^ 51)
   \<and> (target (fetchDashboardData_stats ps t) \<le> 0 \<longrightarrow>
        achievement (fetchDashboardData_stats ps t) = 0)
   \<and> gap (fetchDashboardData_stats ps t)
       = dsub (target (fetchDashboardData_stats ps t)) (totalIncome (fetchDashboardData_stats ps t))
   \<and> (abs_total ps + \<bar>yearly_or_0 t\<bar> \<le> 2 ^ 53 \<longrightarrow>
        totalIncome (fetchDashboardData_stats ps t) = of_int (sum_list (map nett_gp ps))
        \<and> target (fetchDashboardData_stats ps t) = of_int (yearly_or_0 t)
        \<and> gap (fetchDashboardData_stats ps t)
            = target (fetchDashboardData_stats ps t) - totalIncome (fetchDashboardData_stats ps t))"
proof (intro conjI impI)
  let ?S = "fetchDashboardData_stats ps t"
  {
    assume pos: "target ?S > 0"
    then show a: "achievement ?S = dmul (ddiv (totalIncome ?S) (target ?S)) 100"
      by (simp add: stats_fields stats_achievement)
    show "\<bar>achievement ?S - totalIncome ?S / target ?S * 100\<bar>
          \<le> \<bar>totalIncome ?S / target ?S * 100\<bar> / 2 ^ 51"
      unfolding a by (rule percent_err)
  }
  {
    assume "target ?S \<le> 0"
    then show "achievement ?S = 0"
      by (simp add: stats_fields stats_achievement)
  }
  show "gap ?S = dsub (target ?S) (totalIncome ?S)"
    by (simp add: stats_fields)
  {
    assume b: "abs_total ps + \<bar>yearly_or_0 t\<bar> \<le> 2 ^ 53"
    with abs_total_nonneg [of ps] have bt: "\<bar>yearly_or_0 t\<bar> \<le> 2 ^ 53" by linarith
    from b have bp: "abs_total ps \<le> 2 ^ 53" by linarith
    show inc: "totalIncome ?S = of_int (sum_list (map nett_gp ps))"
      by (simp only: stats_fields sum_nett_gp_exact [OF bp])
    show tgt: "target ?S = of_int (yearly_or_0 t)"
      by (simp only: stats_fields target_exact [OF bt])
    from b abs_income_le [of ps] have "\<bar>yearly_or_0 t - sum_list (map nett_gp ps)\<bar> \<le> 2 ^ 53"
      by linarith
    then have "dsub (of_int (yearly_or_0 t)) (of_int (sum_list (map nett_gp ps)))
        = of_int (yearly_or_0 t - sum_list (map nett_gp ps))"
      by (rule dsub_exact)
    then show "gap ?S = target ?S - totalIncome ?S"
      unfolding inc tgt
      by (simp add: stats_fields sum_nett_gp_exact [OF bp] target_exact [OF bt])
  }
qed

text \<open>
  The two projects of 100 and 200 against a target of 200 give 150 percent and a gap
  of -100; without a target row the target is 0, the percentage is 0 and the gap is
  -300.
\<close>

theorem C1_achievement_and_gap_witness:
  "target (fetchDashboardData_stats [ex_p1, ex_p2] (Some ex_target)) > 0
   \<and> achievement (fetchDashboardData_stats [ex_p1, ex_p2] (Some ex_target)) = 150
   \<and> abs_total [ex_p1, ex_p2] + \<bar>yearly_or_0 (Some ex_target)\<bar> \<le> 2 ^ 53
   \<and> totalIncome (fetchDashboardData_stats [ex_p1, ex_p2] (Some ex_target)) = 300
   \<and> gap (fetchDashboardData_stats [ex_p1, ex_p2] (Some ex_target)) = - 100
   \<and> target (fetchDashboardData_stats [ex_p1, ex_p2] None) \<le> 0
   \<and> achievement (fetchDashboardData_stats [ex_p1, ex_p2] None) = 0
   \<and> abs_total [ex_p1, ex_p2] + \<bar>yearly_or_0 None\<bar> \<le> 2 ^ 53
   \<and> gap (fetchDashboardData_stats [ex_p1, ex_p2] None) = - 300"
proof -
  let ?S = "fetchDashboardData_stats [ex_p1, ex_p2] (Some ex_target)"
  let ?N = "fetchDashboardData_stats [ex_p1, ex_p2] None"
  have pos: "target ?S = 200"
    by (simp add: stats_fields ex_target_yearly)
  have inc: "totalIncome (fetchDashboardData_stats [ex_p1, ex_p2] tt) = 300" for tt
    by (simp only: stats_fields ex_income)
  have zero: "target ?N = 0"
    by (simp add: stats_fields target_field_def)
  have b1: "abs_total [ex_p1, ex_p2] + \<bar>yearly_or_0 (Some ex_target)\<bar> \<le> 2 ^ 53"
    by (simp add: ex_abs_total yearly_or_0_def ex_target_def)
  have b0: "abs_total [ex_p1, ex_p2] + \<bar>yearly_or_0 None\<bar> \<le> 2 ^ 53"
    by (simp add: ex_abs_total yearly_or_0_def)
  have pct: "dmul (ddiv 300 200) 100 = 150"
    by (simp add: dmul_def ddiv_def round_3_2 rd_small)
  have gt: "target ?S > 0" by (simp add: pos)
  have le: "target ?N \<le> 0" by (simp add: zero)
  from C1_achievement_and_gap [of "[ex_p1, ex_p2]" "Some ex_target"] gt b1
  have s: "achievement ?S = dmul (ddiv (totalIncome ?S) (target ?S)) 100"
      "gap ?S = target ?S - totalIncome ?S"
    by blast+
  from C1_achievement_and_gap [of "[ex_p1, ex_p2]" None] le b0
  have n: "achievement ?N = 0" "gap ?N = target ?N - totalIncome ?N"
    by blast+
  have "achievement ?S = 150" "gap ?S = - 100" "gap ?N = - 300"
    by (simp_all add: s n pos inc zero pct)
  with gt le b1 b0 n(1) inc [of "Some ex_target"] show ?thesis
    by (intro conjI)
qed

text \<open>
  One project of 7 against a target of 25: the exact percentage is 28, the page computes
  28 and \<open>1 / 2 ^ 48\<close>. One project of 1 against a target of \<open>2 ^ 53 + 2\<close>: the gap
  computed is \<open>2 ^ 53\<close>, not \<open>2 ^ 53 + 1\<close>.
\<close>

theorem C1_achievement_and_gap_counterexample:
  "target (fetchDashboardData_stats [ex_seven] (Some ex_target25)) = 25
   \<and> totalIncome (fetchDashboardData_stats [ex_seven] (Some ex_target25)) = 7
   \<and> achievement (fetchDashboardData_stats [ex_seven] (Some ex_target25))
       = 28 + 1 / 2 ^ 48
   \<and> achievement (fetchDashboardData_stats [ex_seven] (Some ex_target25))
       \<noteq> totalIncome (fetchDashboardData_stats [ex_seven] (Some ex_target25))
           / target (fetchDashboardData_stats [ex_seven] (Some ex_target25)) * 100
   \<and> target (fetchDashboardData_stats [ex_one1] (Some ex_target_big)) = 9007199254740994
   \<and> totalIncome (fetchDashboardData_stats [ex_one1] (Some ex_target_big)) = 1
   \<and> gap (fetchDashboardData_stats [ex_one1] (Some ex_target_big)) = 9007199254740992
   \<and> gap (fetchDashboardData_stats [ex_one1] (Some ex_target_big))
       \<noteq> target (fetchDashboardData_stats [ex_one1] (Some ex_target_big))
           - totalIncome (fetchDashboardData_stats [ex_one1] (Some ex_target_big))"
proof -
  let ?A = "fetchDashboardData_stats [ex_seven] (Some ex_target25)"
  let ?G = "fetchDashboardData_stats [ex_one1] (Some ex_target_big)"
  have ta: "target ?A = 25"
    by (simp add: stats_fields target_field_def ex_target25_def js_small)
  have ia: "totalIncome ?A = 7"
    by (simp add: stats_fields sum_nett_gp_def ex_seven_def js_small dadd_int)
  have "achievement ?A = double_round (double_round (7 / 25) * 100)"
    using ta ia by (simp add: stats_achievement stats_fields dmul_def ddiv_def)
  then have aa: "achievement ?A = 28 + 1 / 2 ^ 48"
    by (simp add: round_7_25_percent)
  have tg: "target ?G = 9007199254740994"
    by (simp add: stats_fields target_field_def ex_target_big_def js_number_def round_2_53_plus_2)
  have ig: "totalIncome ?G = 1"
    by (simp add: stats_fields sum_nett_gp_def ex_one1_def js_small dadd_int)
  have "gap ?G = double_round 9007199254740993"
    using tg ig by (simp add: stats_fields dsub_def)
  then have gg: "gap ?G = 9007199254740992"
    by (simp only: round_2_53_plus_1)
  show ?thesis
    by (simp add: ta ia aa tg ig gg)
qed


lemma quarter_incomes:
  "map qe_income (quarterlyData (fetchDashboardData_stats ps t))
   = map (\<lambda>q. sum_nett_gp (filter (\<lambda>p. quarter p = q) ps)) quarter_labels"
  by (simp add: stats_fields quarterly_entry_def comp_def)


lemma quarter_names:
  "map qe_quarter (quarterlyData (fetchDashboardData_stats ps t)) = quarter_labels"
  by (simp add: stats_fields quarterly_entry_def comp_def)
















text \<open>With a target row, each quarter is paired with its own target column.\<close>

lemma quarter_targets:
  "map qe_target (quarterlyData (fetchDashboardData_stats ps (Some t)))
   = [js_number (q1_target t), js_number (q2_target t),
      js_number (q3_target t), js_number (q4_target t)]"
  by (simp add: stats_fields quarterly_entry_def quarter_labels_def target_field_def
      toLowerCase_def lower_char_def)


section \<open>Empty input and absent target\<close>

lemma rankings_empty:
  "topPicsArray [] = []" "topProductsArray [] = []"
  "TopPics_rankingsArray [] = []" "TopProducts_rankingsArray [] = []"
  by (simp_all add: topPicsArray_def topPics_sorted_def picMap_def
      topProductsArray_def topProducts_sorted_def productMap_def
      TopPics_rankingsArray_def TopPics_sorted_def TopPics_picMap_def
      TopProducts_rankingsArray_def TopProducts_sorted_def TopProducts_productMap_def
      sort_by_def)

text \<open>
  C6. The aggregation has no error branch: it is a total function of the record list
  and the optional target row. On the empty record list totalIncome is 0, the four
  quarterly incomes are 0, the category breakdown is empty and all rankings are empty.
  Without a target row the target is 0, the achievement is 0, the four quarterly
  targets are 0 and the gap is 0 - totalIncome.
\<close>

theorem C6_empty_input_and_null_target:
  "totalIncome (fetchDashboardData_stats [] t) = 0
   \<and> map qe_income (quarterlyData (fetchDashboardData_stats [] t)) = [0, 0, 0, 0]
   \<and> map qe_quarter (quarterlyData (fetchDashboardData_stats [] t)) = [''Q1'', ''Q2'', ''Q3'', ''Q4'']
   \<and> categoryData (fetchDashboardData_stats [] t) = []
   \<and> topPicsArray [] = [] \<and> topProductsArray [] = []
   \<and> TopPics_rankingsArray [] = [] \<and> TopProducts_rankingsArray [] = []
   \<and> target (fetchDashboardData_stats ps None) = 0
   \<and> achievement (fetchDashboardData_stats ps None) = 0
   \<and> map qe_target (quarterlyData (fetchDashboardData_stats ps None)) = [0, 0, 0, 0]
   \<and> gap (fetchDashboardData_stats ps None) = 0 - totalIncome (fetchDashboardData_stats ps None)"
proof -
  have "map qe_income (quarterlyData (fetchDashboardData_stats [] t)) = [0, 0, 0, 0]"
    by (simp add: quarter_incomes quarter_labels_def sum_nett_gp_Nil)
  moreover have "map qe_quarter (quarterlyData (fetchDashboardData_stats [] t))
      = [''Q1'', ''Q2'', ''Q3'', ''Q4'']"
    by (simp add: quarter_names quarter_labels_def)
  moreover have "categoryData (fetchDashboardData_stats [] t) = []"
    by (simp add: stats_fields categoryMap_def)
  moreover have "map qe_target (quarterlyData (fetchDashboardData_stats ps None)) = [0, 0, 0, 0]"
    by (simp add: stats_fields quarterly_entry_def quarter_labels_def target_field_def)
  moreover have "target (fetchDashboardData_stats ps None) = 0"
    by (simp add: stats_fields target_field_def)
  moreover have "achievement (fetchDashboardData_stats ps None) = 0"
    by (simp add: stats_achievement target_field_def)
  moreover have "gap (fetchDashboardData_stats ps None)
      = 0 - totalIncome (fetchDashboardData_stats ps None)"
    by (simp add: stats_fields target_field_def dsub_def rd_neg sum_nett_gp_double)
  moreover have "totalIncome (fetchDashboardData_stats [] t) = 0"
    by (simp add: stats_fields sum_nett_gp_Nil)
  ultimately show ?thesis
    by (simp only: rankings_empty simp_thms)
qed


section \<open>Rankings\<close>


lemma ex_topPics:
  "topPicsArray [ex_p1, ex_p2, ex_p3]
   = [\<lparr> rkey = ''Yuri'', r_totalIncome = 200, projectCount = 1 \<rparr>,
      \<lparr> rkey = ''Xena'', r_totalIncome = 100, projectCount = 1 \<rparr>,
      \<lparr> rkey = ''N/A'', r_totalIncome = 50, projectCount = 1 \<rparr>]"
  by (simp add: topPicsArray_def topPics_sorted_def picMap_def group_step_def sort_by_def
      by_income_desc_def to_ranking_def or_NA_def ex_p1_def ex_p2_def ex_p3_def
      js_small dadd_int dsub_int)

lemma ex_topProducts:
  "topProductsArray [ex_p1, ex_p2, ex_p3]
   = [\<lparr> rkey = ''NetApp'', r_totalIncome = 300, projectCount = 2 \<rparr>,
      \<lparr> rkey = ''N/A'', r_totalIncome = 50, projectCount = 1 \<rparr>]"
  by (simp add: topProductsArray_def topProducts_sorted_def productMap_def group_step_def
      sort_by_def by_income_desc_def to_ranking_def or_NA_def ex_p1_def ex_p2_def ex_p3_def
      js_small dadd_int dsub_int)

lemma ex_TopPics:
  "TopPics_rankingsArray [ex_p1, ex_p2, ex_p3]
   = [\<lparr> rkey = Some ''Yuri'', r_totalIncome = 200, projectCount = 1 \<rparr>,
      \<lparr> rkey = Some ''Xena'', r_totalIncome = 100, projectCount = 1 \<rparr>,
      \<lparr> rkey = Some [], r_totalIncome = 50, projectCount = 1 \<rparr>]"
  by (simp add: TopPics_rankingsArray_def TopPics_sorted_def TopPics_picMap_def group_step_def
      sort_by_def by_income_desc_def to_ranking_def ex_p1_def ex_p2_def ex_p3_def
      js_small dadd_int dsub_int)

lemma ex_TopProducts:
  "TopProducts_rankingsArray [ex_p1, ex_p2, ex_p3]
   = [\<lparr> rkey = ''NetApp'', r_totalIncome = 300, projectCount = 2,
        pics = [\<lparr> pb_pic = Some ''Yuri'', pb_income = 200 \<rparr>,
                \<lparr> pb_pic = Some ''Xena'', pb_income = 100 \<rparr>] \<rparr>,
      \<lparr> rkey = ''N/A'', r_totalIncome = 50, projectCount = 1,
        pics = [\<lparr> pb_pic = Some [], pb_income = 50 \<rparr>] \<rparr>]"
  by (simp add: TopProducts_rankingsArray_def TopProducts_sorted_def TopProducts_productMap_def
      product_step_def sort_by_def by_income_desc_def by_pic_income_desc_def
      to_product_ranking_def or_NA_def ex_p1_def ex_p2_def ex_p3_def
      js_small dadd_int dsub_int)

lemma in_take_ranked:
  assumes "e \<in> set (take n (sort_by by_income_desc (map to_ranking (foldl (group_step keyOf) [] ps))))"
  shows "projectCount e = length (filter (\<lambda>p. keyOf p = rkey e) ps) \<and> 1 \<le> projectCount e"
proof -
  from assms have "e \<in> set (sort_by by_income_desc (map to_ranking (foldl (group_step keyOf) [] ps)))"
    by (rule in_set_takeD)
  from ranked_entry [OF this] filter_key_nonempty [of "rkey e" keyOf ps]
  show ?thesis by simp
qed

lemma product_ranked_entry:
  assumes "e \<in> set (TopProducts_sorted ps)"
  shows "rkey e \<in> (\<lambda>p. or_NA (product p)) ` set ps
       \<and> r_totalIncome e = sum_nett_gp (filter (\<lambda>p. or_NA (product p) = rkey e) ps)
       \<and> projectCount e = length (filter (\<lambda>p. or_NA (product p) = rkey e) ps)
       \<and> pics e = sort_by by_pic_income_desc
            (map (\<lambda>(k, income). \<lparr> pb_pic = k, pb_income = income \<rparr>)
               (foldl (sum_step pic) [] (filter (\<lambda>p. or_NA (product p) = rkey e) ps)))"
proof -
  from assms obtain g where g: "g \<in> set (TopProducts_productMap ps)"
    and e: "e = to_product_ranking g"
    by (auto simp: TopProducts_sorted_def set_sort_by)
  obtain k t c pm where gk: "g = (k, t, c, pm)" by (cases g)
  from productMap_entry [of k t c pm ps] g gk e show ?thesis
    by (simp add: to_product_ranking_def)
qed

lemma product_ranked_count_sum:
  "sum_list (map projectCount (TopProducts_sorted ps)) = length ps"
  by (simp add: TopProducts_sorted_def sum_sort_by to_product_ranking_def comp_def
      productMap_count_sum)




text \<open>
  C9. In every ranking each entry's projectCount is the number of records whose
  grouping key is the entry's key, and it is at least 1; and over all groups, before the
  cut to the top 5, the projectCounts sum to the number of records.
\<close>

theorem C9_project_counts:
  "(\<forall>e \<in> set (topPicsArray ps).
      projectCount e = length (filter (\<lambda>p. or_NA (pic p) = rkey e) ps) \<and> 1 \<le> projectCount e)
   \<and> (\<forall>e \<in> set (topProductsArray ps).
      projectCount e = length (filter (\<lambda>p. or_NA (product p) = rkey e) ps) \<and> 1 \<le> projectCount e)
   \<and> (\<forall>e \<in> set (TopPics_rankingsArray ps).
      projectCount e = length (filter (\<lambda>p. pic p = rkey e) ps) \<and> 1 \<le> projectCount e)
   \<and> (\<forall>e \<in> set (TopProducts_rankingsArray ps).
      projectCount e = length (filter (\<lambda>p. or_NA (product p) = rkey e) ps) \<and> 1 \<le> projectCount e)
   \<and> sum_list (map projectCount (topPics_sorted ps)) = length ps
   \<and> sum_list (map projectCount (topProducts_sorted ps)) = length ps
   \<and> sum_list (map projectCount (TopPics_sorted ps)) = length ps
   \<and> sum_list (map projectCount (TopProducts_sorted ps)) = length ps"
proof -
  have c1: "projectCount e = length (filter (\<lambda>p. or_NA (pic p) = rkey e) ps) \<and> 1 \<le> projectCount e"
    if "e \<in> set (topPicsArray ps)" for e
    using that unfolding topPicsArray_def topPics_sorted_def picMap_def by (rule in_take_ranked)
  have c2: "projectCount e = length (filter (\<lambda>p. or_NA (product p) = rkey e) ps) \<and> 1 \<le> projectCount e"
    if "e \<in> set (topProductsArray ps)" for e
    using that unfolding topProductsArray_def topProducts_sorted_def productMap_def
    by (rule in_take_ranked)
  have c3: "projectCount e = length (filter (\<lambda>p. pic p = rkey e) ps) \<and> 1 \<le> projectCount e"
    if "e \<in> set (TopPics_rankingsArray ps)" for e
    using that unfolding TopPics_rankingsArray_def TopPics_sorted_def TopPics_picMap_def
    by (rule in_take_ranked)
  have c4: "projectCount e = length (filter (\<lambda>p. or_NA (product p) = rkey e) ps) \<and> 1 \<le> projectCount e"
    if "e \<in> set (TopProducts_rankingsArray ps)" for e
  proof -
    from that have "e \<in> set (TopProducts_sorted ps)"
      unfolding TopProducts_rankingsArray_def by (rule in_set_takeD)
    from product_ranked_entry [OF this]
      filter_key_nonempty [of "rkey e" "\<lambda>p. or_NA (product p)" ps]
    show ?thesis by simp
  qed
  have t1: "sum_list (map projectCount (topPics_sorted ps)) = length ps"
    unfolding topPics_sorted_def picMap_def by (rule ranked_count_sum)
  have t2: "sum_list (map projectCount (topProducts_sorted ps)) = length ps"
    unfolding topProducts_sorted_def productMap_def by (rule ranked_count_sum)
  have t3: "sum_list (map projectCount (TopPics_sorted ps)) = length ps"
    unfolding TopPics_sorted_def TopPics_picMap_def by (rule ranked_count_sum)
  note t4 = product_ranked_count_sum [of ps]
  from c1 c2 c3 c4 t1 t2 t3 t4 show ?thesis by blast
qed

text \<open>
  On the three example projects the entry of product NetApp counts the two projects of
  that product, and the other first entries count one project each.
\<close>

theorem C9_project_counts_witness:
  "\<lparr> rkey = ''Yuri'', r_totalIncome = 200, projectCount = 1 \<rparr>
     \<in> set (topPicsArray [ex_p1, ex_p2, ex_p3])
   \<and> length (filter (\<lambda>p. or_NA (pic p) = ''Yuri'') [ex_p1, ex_p2, ex_p3]) = 1
   \<and> \<lparr> rkey = ''NetApp'', r_totalIncome = 300, projectCount = 2 \<rparr>
     \<in> set (topProductsArray [ex_p1, ex_p2, ex_p3])
   \<and> length (filter (\<lambda>p. or_NA (product p) = ''NetApp'') [ex_p1, ex_p2, ex_p3]) = 2
   \<and> \<lparr> rkey = Some [], r_totalIncome = 50, projectCount = 1 \<rparr>
     \<in> set (TopPics_rankingsArray [ex_p1, ex_p2, ex_p3])
   \<and> length (filter (\<lambda>p. pic p = Some []) [ex_p1, ex_p2, ex_p3]) = 1
   \<and> \<lparr> rkey = ''N/A'', r_totalIncome = 50, projectCount = 1,
        pics = [\<lparr> pb_pic = Some [], pb_income = 50 \<rparr>] \<rparr>
     \<in> set (TopProducts_rankingsArray [ex_p1, ex_p2, ex_p3])
   \<and> length (filter (\<lambda>p. or_NA (product p) = ''N/A'') [ex_p1, ex_p2, ex_p3]) = 1
   \<and> sum_list (map projectCount (topPics_sorted [ex_p1, ex_p2, ex_p3])) = 3"
proof -
  let ?ps = "[ex_p1, ex_p2, ex_p3]"
  have m1: "\<lparr> rkey = ''Yuri'', r_totalIncome = 200, projectCount = 1 \<rparr> \<in> set (topPicsArray ?ps)"
    by (simp add: ex_topPics)
  have m2: "\<lparr> rkey = ''NetApp'', r_totalIncome = 300, projectCount = 2 \<rparr>
      \<in> set (topProductsArray ?ps)"
    by (simp add: ex_topProducts)
  have m3: "\<lparr> rkey = Some [], r_totalIncome = 50, projectCount = 1 \<rparr>
      \<in> set (TopPics_rankingsArray ?ps)"
    by (simp add: ex_TopPics)
  have m4: "\<lparr> rkey = ''N/A'', r_totalIncome = 50, projectCount = 1,
        pics = [\<lparr> pb_pic = Some [], pb_income = 50 \<rparr>] \<rparr> \<in> set (TopProducts_rankingsArray ?ps)"
    by (simp add: ex_TopProducts)
  note inst = C9_project_counts [of ?ps]
  from inst m1 have "length (filter (\<lambda>p. or_NA (pic p) = ''Yuri'') ?ps) = 1" by fastforce
  moreover from inst m2 have "length (filter (\<lambda>p. or_NA (product p) = ''NetApp'') ?ps) = 2"
    by fastforce
  moreover from inst m3 have "length (filter (\<lambda>p. pic p = Some []) ?ps) = 1" by fastforce
  moreover from inst m4 have "length (filter (\<lambda>p. or_NA (product p) = ''N/A'') ?ps) = 1"
    by fastforce
  moreover from inst have "sum_list (map projectCount (topPics_sorted ?ps)) = 3" by simp
  ultimately show ?thesis using m1 m2 m3 m4 by simp
qed


section \<open>The product leaderboard's nested breakdown\<close>

lemma breakdown_of_sums:
  fixes pm :: "(string option \<times> number) list"
  defines "bs \<equiv> sort_by by_pic_income_desc (map (\<lambda>(k, income). \<lparr> pb_pic = k, pb_income = income \<rparr>) pm)"
  shows "set (map pb_pic bs) = set (map fst pm)"
    and "distinct (map pb_pic bs) \<longleftrightarrow> distinct (map fst pm)"
    and "sum_list (map pb_income bs) = sum_list (map snd pm)"
    and "b \<in> set bs \<Longrightarrow> (pb_pic b, pb_income b) \<in> set pm"
    and "sorted_wrt (\<lambda>a b. pb_income b \<le> pb_income a) bs"
proof -
  let ?mk = "\<lambda>(k, income). \<lparr> pb_pic = k, pb_income = income \<rparr>"
  have keys: "map pb_pic (map ?mk pm) = map fst pm"
    by (simp add: comp_def case_prod_beta)
  have vals: "map pb_income (map ?mk pm) = map snd pm"
    by (simp add: comp_def case_prod_beta)
  show "set (map pb_pic bs) = set (map fst pm)"
    unfolding bs_def using keys by (simp add: set_sort_by image_image case_prod_beta)
  show "distinct (map pb_pic bs) \<longleftrightarrow> distinct (map fst pm)"
    unfolding bs_def distinct_sort_by by (simp only: keys)
  show "sum_list (map pb_income bs) = sum_list (map snd pm)"
    unfolding bs_def sum_sort_by by (simp only: vals)
  show "(pb_pic b, pb_income b) \<in> set pm" if "b \<in> set bs"
    using that unfolding bs_def by (auto simp: set_sort_by)
  show "sorted_wrt (\<lambda>a b. pb_income b \<le> pb_income a) bs"
    unfolding bs_def by (rule sorted_sort_by) (simp add: by_pic_income_desc_def dsub_le_0_iff)
qed

lemma dadd_big: "dadd 9007199254740992 1 = 9007199254740992"
  by (simp add: dadd_def round_2_53_plus_1)

text \<open>
  C4. In the product leaderboard the nested breakdown of each entry groups the records
  of that product by pic: it has one element per pic occurring among them, the element's
  income is the income that the reduce computes on the product's records of that pic,
  and the elements are in descending order of income; the entry's totalIncome is the
  income that the reduce computes on the product's records. When the absolute amounts of
  the product's records sum to at most \<open>2 ^ 53\<close>, each element's income is the exact sum
  of nett_gp over the product's records of that pic, and the incomes sum to the entry's
  totalIncome.
\<close>

theorem C4_nested_breakdown:
  "\<forall>e \<in> set (TopProducts_rankingsArray ps).
     distinct (map pb_pic (pics e))
     \<and> set (map pb_pic (pics e)) = pic ` {p \<in> set ps. or_NA (product p) = rkey e}
     \<and> (\<forall>b \<in> set (pics e).
          pb_income b = sum_nett_gp
             (filter (\<lambda>p. or_NA (product p) = rkey e \<and> pic p = pb_pic b) ps))
     \<and> r_totalIncome e = sum_nett_gp (filter (\<lambda>p. or_NA (product p) = rkey e) ps)
     \<and> (\<forall>i. Suc i < length (pics e) \<longrightarrow> pb_income (pics e ! Suc i) \<le> pb_income (pics e ! i))
     \<and> (abs_total (filter (\<lambda>p. or_NA (product p) = rkey e) ps) \<le> 2 ^ 53 \<longrightarrow>
          (\<forall>b \<in> set (pics e).
             pb_income b = of_int (sum_list (map nett_gp
               (filter (\<lambda>p. or_NA (product p) = rkey e \<and> pic p = pb_pic b) ps))))
          \<and> sum_list (map pb_income (pics e)) = r_totalIncome e)"
proof
  fix e
  assume "e \<in> set (TopProducts_rankingsArray ps)"
  then have mem: "e \<in> set (TopProducts_sorted ps)"
    unfolding TopProducts_rankingsArray_def by (rule in_set_takeD)
  let ?G = "filter (\<lambda>p. or_NA (product p) = rkey e) ps"
  let ?pm = "foldl (sum_step pic) [] ?G"
  from product_ranked_entry [OF mem]
  have total: "r_totalIncome e = sum_nett_gp ?G"
    and pics: "pics e = sort_by by_pic_income_desc
        (map (\<lambda>(k, income). \<lparr> pb_pic = k, pb_income = income \<rparr>) ?pm)"
    by simp_all
  have d: "distinct (map pb_pic (pics e))"
    unfolding pics breakdown_of_sums(2) by (rule sum_distinct)
  have k: "set (map pb_pic (pics e)) = pic ` {p \<in> set ps. or_NA (product p) = rkey e}"
    unfolding pics breakdown_of_sums(1) sum_keys by simp
  have v0: "pb_income b = sum_nett_gp (filter (\<lambda>p. pic p = pb_pic b) ?G)"
    if "b \<in> set (pics e)" for b
  proof -
    from that have "(pb_pic b, pb_income b) \<in> set ?pm"
      unfolding pics by (rule breakdown_of_sums(4))
    from sum_entry [OF this] show ?thesis by simp
  qed
  have ff: "filter (\<lambda>p. pic p = c) ?G
      = filter (\<lambda>p. or_NA (product p) = rkey e \<and> pic p = c) ps" for c
    by simp
  have v: "pb_income b = sum_nett_gp
        (filter (\<lambda>p. or_NA (product p) = rkey e \<and> pic p = pb_pic b) ps)"
    if "b \<in> set (pics e)" for b
    using v0 [OF that] by (simp only: ff)
  have o: "pb_income (pics e ! Suc i) \<le> pb_income (pics e ! i)" if "Suc i < length (pics e)" for i
    using sorted_wrt_adjacent [OF breakdown_of_sums(5) [of ?pm], of i] that
    unfolding pics by simp
  have x: "pb_income b = of_int (sum_list (map nett_gp
        (filter (\<lambda>p. or_NA (product p) = rkey e \<and> pic p = pb_pic b) ps)))"
    if bd: "abs_total ?G \<le> 2 ^ 53" and b: "b \<in> set (pics e)" for b
  proof -
    have "pb_income b = sum_nett_gp (filter (\<lambda>p. pic p = pb_pic b) ?G)"
      by (rule v0 [OF b])
    also have "\<dots> = of_int (sum_list (map nett_gp (filter (\<lambda>p. pic p = pb_pic b) ?G)))"
      using bd by (rule sum_nett_gp_filter_exact)
    finally show ?thesis by (simp only: ff)
  qed
  have s: "sum_list (map pb_income (pics e)) = r_totalIncome e" if bd: "abs_total ?G \<le> 2 ^ 53"
  proof -
    have "sum_list (map pb_income (pics e)) = sum_list (map snd ?pm)"
      unfolding pics by (rule breakdown_of_sums(3))
    also have "\<dots> = of_int (sum_list (map nett_gp ?G))"
      using bd by (rule sum_loop_total)
    finally show ?thesis
      by (simp only: total sum_nett_gp_exact [OF bd])
  qed
  have vs: "\<forall>b \<in> set (pics e).
          pb_income b = sum_nett_gp
             (filter (\<lambda>p. or_NA (product p) = rkey e \<and> pic p = pb_pic b) ps)"
    using v by blast
  have os: "\<forall>i. Suc i < length (pics e) \<longrightarrow> pb_income (pics e ! Suc i) \<le> pb_income (pics e ! i)"
    using o by blast
  have xs: "abs_total ?G \<le> 2 ^ 53 \<longrightarrow>
          (\<forall>b \<in> set (pics e).
             pb_income b = of_int (sum_list (map nett_gp
               (filter (\<lambda>p. or_NA (product p) = rkey e \<and> pic p = pb_pic b) ps))))
          \<and> sum_list (map pb_income (pics e)) = r_totalIncome e"
    using x s by blast
  from d k vs total os xs
  show "distinct (map pb_pic (pics e))
     \<and> set (map pb_pic (pics e)) = pic ` {p \<in> set ps. or_NA (product p) = rkey e}
     \<and> (\<forall>b \<in> set (pics e).
          pb_income b = sum_nett_gp
             (filter (\<lambda>p. or_NA (product p) = rkey e \<and> pic p = pb_pic b) ps))
     \<and> r_totalIncome e = sum_nett_gp (filter (\<lambda>p. or_NA (product p) = rkey e) ps)
     \<and> (\<forall>i. Suc i < length (pics e) \<longrightarrow> pb_income (pics e ! Suc i) \<le> pb_income (pics e ! i))
     \<and> (abs_total (filter (\<lambda>p. or_NA (product p) = rkey e) ps) \<le> 2 ^ 53 \<longrightarrow>
          (\<forall>b \<in> set (pics e).
             pb_income b = of_int (sum_list (map nett_gp
               (filter (\<lambda>p. or_NA (product p) = rkey e \<and> pic p = pb_pic b) ps))))
          \<and> sum_list (map pb_income (pics e)) = r_totalIncome e)"
    by (intro conjI)
qed

text \<open>
  On the three example projects the entry of NetApp carries Yuri with 200 before Xena
  with 100, which sum to its 300.
\<close>

theorem C4_nested_breakdown_witness:
  "\<lparr> rkey = ''NetApp'', r_totalIncome = 300, projectCount = 2,
      pics = [\<lparr> pb_pic = Some ''Yuri'', pb_income = 200 \<rparr>,
              \<lparr> pb_pic = Some ''Xena'', pb_income = 100 \<rparr>] \<rparr>
     \<in> set (TopProducts_rankingsArray [ex_p1, ex_p2, ex_p3])
   \<and> abs_total (filter (\<lambda>p. or_NA (product p) = ''NetApp'') [ex_p1, ex_p2, ex_p3]) \<le> 2 ^ 53
   \<and> sum_nett_gp
        (filter (\<lambda>p. or_NA (product p) = ''NetApp'' \<and> pic p = Some ''Yuri'') [ex_p1, ex_p2, ex_p3])
      = 200
   \<and> sum_list (map nett_gp
        (filter (\<lambda>p. or_NA (product p) = ''NetApp'' \<and> pic p = Some ''Yuri'') [ex_p1, ex_p2, ex_p3]))
      = 200
   \<and> sum_nett_gp (filter (\<lambda>p. or_NA (product p) = ''NetApp'') [ex_p1, ex_p2, ex_p3]) = 300
   \<and> pic ` {p \<in> set [ex_p1, ex_p2, ex_p3]. or_NA (product p) = ''NetApp''}
      = {Some ''Yuri'', Some ''Xena''}
   \<and> Suc 0 < length [\<lparr> pb_pic = Some ''Yuri'', pb_income = 200 \<rparr>,
                      \<lparr> pb_pic = Some ''Xena'', pb_income = (100 :: number) \<rparr>]"
proof -
  let ?ps = "[ex_p1, ex_p2, ex_p3]"
  let ?e = "\<lparr> rkey = ''NetApp'', r_totalIncome = 300, projectCount = 2,
      pics = [\<lparr> pb_pic = Some ''Yuri'', pb_income = 200 \<rparr>,
              \<lparr> pb_pic = Some ''Xena'', pb_income = 100 \<rparr>] \<rparr>"
  let ?b = "\<lparr> pb_pic = Some ''Yuri'', pb_income = 200 \<rparr>"
  have mem: "?e \<in> set (TopProducts_rankingsArray ?ps)"
    by (simp add: ex_TopProducts)
  have b: "?b \<in> set (pics ?e)"
    by simp
  have bd: "abs_total (filter (\<lambda>p. or_NA (product p) = ''NetApp'') ?ps) \<le> 2 ^ 53"
    by (simp add: abs_total_def or_NA_def ex_p1_def ex_p2_def ex_p3_def)
  then have bd': "abs_total (filter (\<lambda>p. or_NA (product p) = rkey ?e) ?ps) \<le> 2 ^ 53"
    by simp
  note inst = bspec [OF C4_nested_breakdown [of ?ps] mem]
  from inst
  have keys: "set (map pb_pic (pics ?e))
        = pic ` {p \<in> set ?ps. or_NA (product p) = rkey ?e}"
    and vals: "\<forall>b \<in> set (pics ?e).
          pb_income b = sum_nett_gp
             (filter (\<lambda>p. or_NA (product p) = rkey ?e \<and> pic p = pb_pic b) ?ps)"
    and tot: "r_totalIncome ?e = sum_nett_gp (filter (\<lambda>p. or_NA (product p) = rkey ?e) ?ps)"
    by blast+
  from inst bd'
  have exact: "\<forall>b \<in> set (pics ?e).
             pb_income b = of_int (sum_list (map nett_gp
               (filter (\<lambda>p. or_NA (product p) = rkey ?e \<and> pic p = pb_pic b) ?ps)))"
    by blast
  from bspec [OF vals b]
  have v: "sum_nett_gp
        (filter (\<lambda>p. or_NA (product p) = ''NetApp'' \<and> pic p = Some ''Yuri'') ?ps) = 200"
    by (simp only: Ranking.select_convs PicBreakdown.select_convs)
  from bspec [OF exact b]
  have "of_int (sum_list (map nett_gp
        (filter (\<lambda>p. or_NA (product p) = ''NetApp'' \<and> pic p = Some ''Yuri'') ?ps)))
      = (200 :: number)"
    by (simp only: Ranking.select_convs PicBreakdown.select_convs)
  then have x: "sum_list (map nett_gp
        (filter (\<lambda>p. or_NA (product p) = ''NetApp'' \<and> pic p = Some ''Yuri'') ?ps)) = 200"
    by (simp only: of_int_eq_numeral_iff)
  from tot have t: "sum_nett_gp (filter (\<lambda>p. or_NA (product p) = ''NetApp'') ?ps) = 300"
    by (simp only: Ranking.select_convs)
  from keys have ks: "pic ` {p \<in> set ?ps. or_NA (product p) = ''NetApp''}
      = {Some ''Yuri'', Some ''Xena''}"
    by simp
  have l: "Suc 0 < length [\<lparr> pb_pic = Some ''Yuri'', pb_income = 200 \<rparr>,
                      \<lparr> pb_pic = Some ''Xena'', pb_income = (100 :: number) \<rparr>]"
    by simp
  from mem bd v x t ks l show ?thesis by (intro conjI)
qed

text \<open>
  Ann's project of \<open>2 ^ 53\<close> and Bob's two projects of 1, all of product NetApp: the
  entry's totalIncome stays at \<open>2 ^ 53\<close>, while the nested incomes \<open>2 ^ 53\<close> and 2 sum
  to \<open>2 ^ 53 + 2\<close>.
\<close>

theorem C4_nested_breakdown_counterexample:
  "TopProducts_rankingsArray [ex_big, ex_one1, ex_one2]
     = [\<lparr> rkey = ''NetApp'', r_totalIncome = 9007199254740992, projectCount = 3,
          pics = [\<lparr> pb_pic = Some ''Ann'', pb_income = 9007199254740992 \<rparr>,
                  \<lparr> pb_pic = Some ''Bob'', pb_income = 2 \<rparr>] \<rparr>]
   \<and> sum_list (map pb_income (pics (hd (TopProducts_rankingsArray [ex_big, ex_one1, ex_one2]))))
       = 9007199254740994
   \<and> r_totalIncome (hd (TopProducts_rankingsArray [ex_big, ex_one1, ex_one2]))
       = 9007199254740992"
proof -
  have "TopProducts_rankingsArray [ex_big, ex_one1, ex_one2]
     = [\<lparr> rkey = ''NetApp'', r_totalIncome = 9007199254740992, projectCount = 3,
          pics = [\<lparr> pb_pic = Some ''Ann'', pb_income = 9007199254740992 \<rparr>,
                  \<lparr> pb_pic = Some ''Bob'', pb_income = 2 \<rparr>] \<rparr>]"
    by (simp add: TopProducts_rankingsArray_def TopProducts_sorted_def TopProducts_productMap_def
      product_step_def sort_by_def by_income_desc_def by_pic_income_desc_def
      to_product_ranking_def or_NA_def ex_big_def ex_one1_def ex_one2_def
      js_small dadd_int dsub_int dadd_big)
  then show ?thesis by simp
qed

section \<open>The sentinel for a missing key\<close>

text \<open>
  The three rankings that compute their key with \<open>|| 'N/A'\<close> group an absent and an
  empty key together under \<open>N/A\<close>.
\<close>

lemma or_NA_missing: "or_NA None = ''N/A''" "or_NA (Some []) = ''N/A''"
  by (simp_all add: or_NA_def)

lemma sentinel_groups:
  assumes "p \<in> set ps"
  shows "pic p = None \<or> pic p = Some [] \<Longrightarrow> map_get (picMap ps) ''N/A'' =
           Some (sum_nett_gp (filter (\<lambda>q. or_NA (pic q) = ''N/A'') ps),
                 length (filter (\<lambda>q. or_NA (pic q) = ''N/A'') ps))"
    and "product p = None \<or> product p = Some [] \<Longrightarrow> map_get (productMap ps) ''N/A'' =
           Some (sum_nett_gp (filter (\<lambda>q. or_NA (product q) = ''N/A'') ps),
                 length (filter (\<lambda>q. or_NA (product q) = ''N/A'') ps))"
    and "product p = None \<or> product p = Some [] \<Longrightarrow>
           map_option (\<lambda>v. (fst v, fst (snd v))) (map_get (TopProducts_productMap ps) ''N/A'') =
           Some (sum_nett_gp (filter (\<lambda>q. or_NA (product q) = ''N/A'') ps),
                 length (filter (\<lambda>q. or_NA (product q) = ''N/A'') ps))"
proof -
  show "map_get (picMap ps) ''N/A'' =
           Some (sum_nett_gp (filter (\<lambda>q. or_NA (pic q) = ''N/A'') ps),
                 length (filter (\<lambda>q. or_NA (pic q) = ''N/A'') ps))"
    if "pic p = None \<or> pic p = Some []"
  proof -
    from that have "or_NA (pic p) = ''N/A''" by (auto simp: or_NA_missing)
    with assms have "''N/A'' \<in> (\<lambda>q. or_NA (pic q)) ` set ps" by force
    then show ?thesis by (simp add: picMap_def group_get)
  qed
  have prod: "''N/A'' \<in> (\<lambda>q. or_NA (product q)) ` set ps"
    if "product p = None \<or> product p = Some []"
  proof -
    from that have "or_NA (product p) = ''N/A''" by (auto simp: or_NA_missing)
    with assms show ?thesis by force
  qed
  show "map_get (productMap ps) ''N/A'' =
           Some (sum_nett_gp (filter (\<lambda>q. or_NA (product q) = ''N/A'') ps),
                 length (filter (\<lambda>q. or_NA (product q) = ''N/A'') ps))"
    if "product p = None \<or> product p = Some []"
    using prod [OF that] by (simp add: productMap_def group_get)
  show "map_option (\<lambda>v. (fst v, fst (snd v))) (map_get (TopProducts_productMap ps) ''N/A'') =
           Some (sum_nett_gp (filter (\<lambda>q. or_NA (product q) = ''N/A'') ps),
                 length (filter (\<lambda>q. or_NA (product q) = ''N/A'') ps))"
    if "product p = None \<or> product p = Some []"
    using prod [OF that] by (simp add: productMap_get)
qed

text \<open>
  C5. The claim: in every ranking a record whose grouping key is absent or empty is
  grouped under \<open>N/A\<close>, so a record with an empty key and one with an absent key share a
  bucket. The PIC leaderboard does not do this: a project whose pic is the empty string
  is ranked under the empty string, and next to a project without pic it makes a second
  bucket; the dashboard's PIC ranking puts the same projects under \<open>N/A\<close>.
\<close>

theorem C5_pic_leaderboard_has_no_sentinel:
  "TopPics_rankingsArray [ex_p3] = [\<lparr> rkey = Some [], r_totalIncome = 50, projectCount = 1 \<rparr>]
   \<and> topPicsArray [ex_p3] = [\<lparr> rkey = ''N/A'', r_totalIncome = 50, projectCount = 1 \<rparr>]
   \<and> TopPics_rankingsArray [ex_p3, ex_p4]
       = [\<lparr> rkey = Some [], r_totalIncome = 50, projectCount = 1 \<rparr>,
          \<lparr> rkey = None, r_totalIncome = 25, projectCount = 1 \<rparr>]
   \<and> topPicsArray [ex_p3, ex_p4] = [\<lparr> rkey = ''N/A'', r_totalIncome = 75, projectCount = 2 \<rparr>]"
  by (simp add: TopPics_rankingsArray_def TopPics_sorted_def TopPics_picMap_def
      topPicsArray_def topPics_sorted_def picMap_def group_step_def
      sort_by_def by_income_desc_def to_ranking_def or_NA_def ex_p3_def ex_p4_def
      js_small dadd_int dsub_int)


section \<open>Decimal rendering\<close>

lemma digit_val_digit_char: "d < 10 \<Longrightarrow> digit_val (digit_char d) = d"
  by (simp add: digit_char_def digit_val_def)

lemma is_digit_digit_char: "is_digit (digit_char d)"
  by (simp add: digit_char_def is_digit_def)

lemma read_nat_snoc: "read_nat (s @ [c]) = 10 * read_nat s + digit_val c"
  by (simp add: read_nat_def)

lemma read_show_nat: "read_nat (show_nat n) = n"
proof (induction n rule: show_nat.induct)
  case (1 n)
  show ?case
  proof (cases "n < 10")
    case True
    then have "show_nat n = [digit_char n]" by (simp add: show_nat.simps)
    with True show ?thesis by (simp add: read_nat_def digit_val_digit_char)
  next
    case False
    then have "show_nat n = show_nat (n div 10) @ [digit_char (n mod 10)]"
      by (subst show_nat.simps) simp
    with False 1 show ?thesis
      by (simp add: read_nat_snoc digit_val_digit_char)
  qed
qed

lemma show_nat_digits: "c \<in> set (show_nat n) \<Longrightarrow> is_digit c"
proof (induction n rule: show_nat.induct)
  case (1 n)
  show ?case
  proof (cases "n < 10")
    case True
    then have "show_nat n = [digit_char n]" by (simp add: show_nat.simps)
    with 1(2) show ?thesis by (simp add: is_digit_digit_char)
  next
    case False
    then have "show_nat n = show_nat (n div 10) @ [digit_char (n mod 10)]"
      by (subst show_nat.simps) simp
    with 1(2) have "c \<in> set (show_nat (n div 10)) \<or> c = digit_char (n mod 10)"
      by auto
    then show ?thesis
    proof
      assume "c \<in> set (show_nat (n div 10))"
      with False show ?thesis by (rule 1(1))
    next
      assume "c = digit_char (n mod 10)"
      then show ?thesis by (simp add: is_digit_digit_char)
    qed
  qed
qed

lemma show_nat_inj:
  assumes "show_nat m = show_nat n"
  shows "m = n"
proof -
  from assms have "read_nat (show_nat m) = read_nat (show_nat n)" by simp
  then show ?thesis by (simp only: read_show_nat)
qed

lemma length_show_nat: "n < 10 ^ k \<Longrightarrow> 0 < k \<Longrightarrow> length (show_nat n) \<le> k"
proof (induction n arbitrary: k rule: show_nat.induct)
  case (1 n)
  show ?case
  proof (cases "n < 10")
    case True
    then have "show_nat n = [digit_char n]" by (simp add: show_nat.simps)
    with 1(3) show ?thesis by simp
  next
    case False
    then have sn: "show_nat n = show_nat (n div 10) @ [digit_char (n mod 10)]"
      by (subst show_nat.simps) simp
    from 1(3) obtain j where k: "k = Suc j" by (cases k) simp_all
    from False 1(2) k have "0 < j" by (cases j) simp_all
    moreover from 1(2) k have "n div 10 < 10 ^ j"
      by (simp add: less_mult_imp_div_less mult.commute)
    ultimately have "length (show_nat (n div 10)) \<le> j"
      using 1(1) [OF False] by simp
    with sn k show ?thesis by simp
  qed
qed

lemma toString_inj: "toString i = toString j \<longleftrightarrow> i = j"
proof
  assume eq: "toString i = toString j"
  have no_minus: "CHR ''-'' # s \<noteq> show_nat n" for s n
  proof
    assume "CHR ''-'' # s = show_nat n"
    then have "CHR ''-'' \<in> set (show_nat n)" by (metis list.set_intros(1))
    then have "is_digit CHR ''-''" by (rule show_nat_digits)
    then show False by (simp add: is_digit_def)
  qed
  show "i = j"
  proof (cases "i < 0")
    case True
    show ?thesis
    proof (cases "j < 0")
      case j: True
      with True eq have "show_nat (nat (- i)) = show_nat (nat (- j))"
        by (simp add: toString_def)
      then have "nat (- i) = nat (- j)" by (rule show_nat_inj)
      with True j show ?thesis by simp
    next
      case j: False
      with True eq no_minus show ?thesis by (simp add: toString_def)
    qed
  next
    case False
    show ?thesis
    proof (cases "j < 0")
      case j: True
      with False eq no_minus [of "show_nat (nat (- j))" "nat i"] show ?thesis
        by (simp add: toString_def)
    next
      case j: False
      with False eq have "show_nat (nat i) = show_nat (nat j)"
        by (simp add: toString_def)
      then have "nat i = nat j" by (rule show_nat_inj)
      with False j show ?thesis by simp
    qed
  qed
next
  assume "i = j"
  then show "toString i = toString j" by simp
qed


section \<open>Reports: filter and total\<close>

text \<open>
  C10. The year selector offers the renderings of whole years. For every project list,
  selected year, quarter selection and category selection, \<open>applyFilters\<close> returns, in
  input order, exactly the projects of the selected year whose quarter is the selected
  one unless that is "all" and whose category is the selected one unless that is
  "all"; when the absolute amounts of that list sum to at most \<open>2 ^ 53\<close>, the total
  shown is the sum of nett_gp over that list.
\<close>

theorem C10_report_filter:
  "applyFilters ps (toString y) q c
     = filter (\<lambda>p. year p = y \<and> (q = ''all'' \<or> quarter p = q)
                  \<and> (c = ''all'' \<or> category p = c)) ps
   \<and> (abs_total (applyFilters ps (toString y) q c) \<le> 2 ^ 53 \<longrightarrow>
        Reports_totalIncome (applyFilters ps (toString y) q c)
          = of_int (sum_list (map nett_gp (applyFilters ps (toString y) q c))))"
proof (intro conjI impI)
  show "applyFilters ps (toString y) q c
     = filter (\<lambda>p. year p = y \<and> (q = ''all'' \<or> quarter p = q)
                  \<and> (c = ''all'' \<or> category p = c)) ps"
    unfolding applyFilters_def Let_def toString_inj
    by (auto intro: filter_cong)
  assume "abs_total (applyFilters ps (toString y) q c) \<le> 2 ^ 53"
  then show "Reports_totalIncome (applyFilters ps (toString y) q c)
      = of_int (sum_list (map nett_gp (applyFilters ps (toString y) q c)))"
    unfolding Reports_totalIncome_def by (rule sum_nett_gp_exact)
qed

lemma ex_toString: "toString 2025 = ''2025''" "toString 2024 = ''2024''"
  by (simp_all add: toString_def show_nat.simps digit_char_def)

text \<open>
  Of the four example projects, the year 2025 with quarter Q1 and all categories
  selects the first two, in order, with a total of 300.
\<close>

theorem C10_report_filter_witness:
  "applyFilters [ex_p4, ex_p1, ex_p3, ex_p2] ''2025'' ''Q1'' ''all'' = [ex_p1, ex_p2]
   \<and> abs_total (applyFilters [ex_p4, ex_p1, ex_p3, ex_p2] ''2025'' ''Q1'' ''all'') \<le> 2 ^ 53
   \<and> Reports_totalIncome (applyFilters [ex_p4, ex_p1, ex_p3, ex_p2] ''2025'' ''Q1'' ''all'') = 300"
proof -
  let ?ps = "[ex_p4, ex_p1, ex_p3, ex_p2]"
  have f: "filter (\<lambda>p. year p = 2025 \<and> (''Q1'' = ''all'' \<or> quarter p = ''Q1'')
                  \<and> (''all'' = ''all'' \<or> category p = ''all'')) ?ps
        = [ex_p1, ex_p2]"
    by (simp add: ex_p1_def ex_p2_def ex_p3_def ex_p4_def)
  note inst = C10_report_filter [of ?ps 2025 "''Q1''" "''all''", unfolded ex_toString]
  from inst have "applyFilters ?ps ''2025'' ''Q1'' ''all''
      = filter (\<lambda>p. year p = 2025 \<and> (''Q1'' = ''all'' \<or> quarter p = ''Q1'')
                  \<and> (''all'' = ''all'' \<or> category p = ''all'')) ?ps"
    by (rule conjunct1)
  from this f have sel: "applyFilters ?ps ''2025'' ''Q1'' ''all'' = [ex_p1, ex_p2]"
    by (rule trans)
  have b: "abs_total (applyFilters ?ps ''2025'' ''Q1'' ''all'') \<le> 2 ^ 53"
    by (simp add: sel ex_abs_total)
  from inst have "abs_total (applyFilters ?ps ''2025'' ''Q1'' ''all'') \<le> 2 ^ 53 \<longrightarrow>
      Reports_totalIncome (applyFilters ?ps ''2025'' ''Q1'' ''all'')
       = of_int (sum_list (map nett_gp (applyFilters ?ps ''2025'' ''Q1'' ''all'')))"
    by (rule conjunct2)
  from this b
  have "Reports_totalIncome (applyFilters ?ps ''2025'' ''Q1'' ''all'')
      = of_int (sum_list (map nett_gp (applyFilters ?ps ''2025'' ''Q1'' ''all'')))"
    by (rule mp)
  then have "Reports_totalIncome (applyFilters ?ps ''2025'' ''Q1'' ''all'')
      = of_int (sum_list (map nett_gp [ex_p1, ex_p2]))"
    by (simp only: sel)
  then have t: "Reports_totalIncome (applyFilters ?ps ''2025'' ''Q1'' ''all'') = 300"
    by (simp add: ex_p1_def ex_p2_def)
  from sel b t show ?thesis by (intro conjI)
qed

text \<open>
  The project of \<open>2 ^ 53\<close> and the two projects of 1, all of 2025, with no quarter and
  no category selected: all three are selected, their nett_gp sum to \<open>2 ^ 53 + 2\<close>, and
  the total shown is \<open>2 ^ 53\<close>.
\<close>

theorem C10_report_filter_counterexample:
  "applyFilters [ex_big, ex_one1, ex_one2] ''2025'' ''all'' ''all'' = [ex_big, ex_one1, ex_one2]
   \<and> sum_list (map nett_gp (applyFilters [ex_big, ex_one1, ex_one2] ''2025'' ''all'' ''all''))
       = 9007199254740994
   \<and> Reports_totalIncome (applyFilters [ex_big, ex_one1, ex_one2] ''2025'' ''all'' ''all'')
       = 9007199254740992"
proof -
  have y: "toString (year ex_big) = ''2025''" "toString (year ex_one1) = ''2025''"
      "toString (year ex_one2) = ''2025''"
    by (simp_all add: ex_big_def ex_one1_def ex_one2_def ex_toString)
  have sel: "applyFilters [ex_big, ex_one1, ex_one2] ''2025'' ''all'' ''all''
      = [ex_big, ex_one1, ex_one2]"
    by (simp add: applyFilters_def y)
  have s: "sum_list (map nett_gp [ex_big, ex_one1, ex_one2]) = 9007199254740994"
    by (simp add: ex_big_def ex_one1_def ex_one2_def)
  show ?thesis
    by (simp only: sel s Reports_totalIncome_def ex_big_income simp_thms)
qed

section \<open>Project codes\<close>

lemma read_nat_zeros: "read_nat (replicate j CHR ''0'' @ s) = read_nat s"
proof -
  have "foldl (\<lambda>a c. 10 * a + digit_val c) 0 (replicate j CHR ''0'') = 0"
    by (induction j) (simp_all add: digit_val_def)
  then show ?thesis by (simp add: read_nat_def)
qed

lemma LPAD_short: "length s \<le> k \<Longrightarrow> LPAD s k c = replicate (k - length s) c @ s"
  by (simp add: LPAD_def)

lemma LPAD_show_nat:
  assumes "n < 10 ^ k" and "0 < k"
  shows "length (LPAD (show_nat n) k CHR ''0'') = k"
    and "list_all is_digit (LPAD (show_nat n) k CHR ''0'')"
    and "read_nat (LPAD (show_nat n) k CHR ''0'') = n"
proof -
  from assms have len: "length (show_nat n) \<le> k" by (rule length_show_nat)
  note pad = LPAD_short [OF len, of "CHR ''0''"]
  show "length (LPAD (show_nat n) k CHR ''0'') = k"
    using len by (simp add: pad)
  have zero: "is_digit CHR ''0''" by (simp add: is_digit_def)
  show "list_all is_digit (LPAD (show_nat n) k CHR ''0'')"
    by (auto simp: pad list_all_iff zero dest: show_nat_digits)
  show "read_nat (LPAD (show_nat n) k CHR ''0'') = n"
    by (simp add: pad read_nat_zeros read_show_nat)
qed

lemma generate_pid_form:
  assumes "count_created_in y ps + 1 < 10000"
  shows "\<exists>yy seq. generate_pid y ps = ''P'' @ yy @ seq
           \<and> length yy = 2 \<and> list_all is_digit yy \<and> read_nat yy = y mod 100
           \<and> length seq = 4 \<and> list_all is_digit seq
           \<and> read_nat seq = count_created_in y ps + 1"
proof -
  let ?yy = "TO_CHAR_YY y"
  let ?seq = "LPAD (show_nat (count_created_in y ps + 1)) 4 CHR ''0''"
  have yy: "length ?yy = 2" "list_all is_digit ?yy" "read_nat ?yy = y mod 100"
    unfolding TO_CHAR_YY_def by (rule LPAD_show_nat; simp)+
  from assms have "count_created_in y ps + 1 < 10 ^ 4" by simp
  then have seq: "length ?seq = 4" "list_all is_digit ?seq"
      "read_nat ?seq = count_created_in y ps + 1"
    by (rule LPAD_show_nat; simp)+
  have "generate_pid y ps = ''P'' @ ?yy @ ?seq"
    by (simp add: generate_pid_def Let_def)
  with yy seq show ?thesis by blast
qed

lemma ex_table_count: "count_created_in 2025 (ex_table n) = n"
  by (simp add: count_created_in_def ex_table_def filter_map comp_def)

lemma replicate_3: "replicate 3 c = [c, c, c]"
  by (simp add: numeral_3_eq_3)

lemma ex_pid_7: "set_project_pid 2025 (ex_table 6) None = ''P250007''"
  by (simp add: set_project_pid_def generate_pid_def Let_def ex_table_count TO_CHAR_YY_def
      LPAD_def show_nat.simps digit_char_def replicate_3)

lemma ex_pid_overflow: "set_project_pid 2025 (ex_table 9999) None = ''P251000''"
  by (simp add: set_project_pid_def generate_pid_def Let_def ex_table_count TO_CHAR_YY_def
      LPAD_def show_nat.simps digit_char_def)

text \<open>
  C8, as the code has it. When a project is inserted with a null or empty pid and fewer
  than 9999 projects were created in the current year, the trigger assigns the letter P,
  the two-digit current year and the four-digit zero-padded number that is one more than
  the count of projects created in the current year. An insert with a non-empty pid
  keeps it.
\<close>

theorem C8_pid_assignment:
  "((new_pid = None \<or> new_pid = Some []) \<and> count_created_in y ps + 1 < 10000 \<longrightarrow>
      (\<exists>yy seq. set_project_pid y ps new_pid = ''P'' @ yy @ seq
         \<and> length yy = 2 \<and> list_all is_digit yy \<and> read_nat yy = y mod 100
         \<and> length seq = 4 \<and> list_all is_digit seq
         \<and> read_nat seq = count_created_in y ps + 1))
   \<and> (s \<noteq> [] \<longrightarrow> set_project_pid y ps (Some s) = s)"
proof (intro conjI impI)
  assume a: "(new_pid = None \<or> new_pid = Some []) \<and> count_created_in y ps + 1 < 10000"
  then have "set_project_pid y ps new_pid = generate_pid y ps"
    by (auto simp: set_project_pid_def)
  moreover from a have "count_created_in y ps + 1 < 10000" by (rule conjunct2)
  ultimately show "\<exists>yy seq. set_project_pid y ps new_pid = ''P'' @ yy @ seq
         \<and> length yy = 2 \<and> list_all is_digit yy \<and> read_nat yy = y mod 100
         \<and> length seq = 4 \<and> list_all is_digit seq
         \<and> read_nat seq = count_created_in y ps + 1"
    using generate_pid_form [of y ps] by (simp only:)
next
  assume "s \<noteq> []"
  then show "set_project_pid y ps (Some s) = s"
    by (simp add: set_project_pid_def)
qed

text \<open>
  With six projects created in 2025 the seventh, inserted without pid, becomes P250007;
  a project inserted as X1 stays X1.
\<close>

theorem C8_pid_assignment_witness:
  "count_created_in 2025 (ex_table 6) + 1 < 10000
   \<and> set_project_pid 2025 (ex_table 6) None = ''P250007''
   \<and> (\<exists>yy seq. ''P250007'' = ''P'' @ yy @ seq
         \<and> length yy = 2 \<and> list_all is_digit yy \<and> read_nat yy = 25
         \<and> length seq = 4 \<and> list_all is_digit seq \<and> read_nat seq = 7)
   \<and> set_project_pid 2025 (ex_table 6) (Some ''X1'') = ''X1''"
proof -
  have c: "count_created_in 2025 (ex_table 6) + 1 < 10000"
    by (simp add: ex_table_count)
  have n: "count_created_in 2025 (ex_table 6) + 1 = 7" "(2025::nat) mod 100 = 25"
    by (simp_all add: ex_table_count)
  have x: "''X1'' \<noteq> []" by simp
  from C8_pid_assignment [of None 2025 "ex_table 6" "''X1''"] c x
  have "\<exists>yy seq. set_project_pid 2025 (ex_table 6) None = ''P'' @ yy @ seq
         \<and> length yy = 2 \<and> list_all is_digit yy \<and> read_nat yy = 2025 mod 100
         \<and> length seq = 4 \<and> list_all is_digit seq
         \<and> read_nat seq = count_created_in 2025 (ex_table 6) + 1"
    and kept: "set_project_pid 2025 (ex_table 6) (Some ''X1'') = ''X1''"
    by blast+
  then have "\<exists>yy seq. ''P250007'' = ''P'' @ yy @ seq
         \<and> length yy = 2 \<and> list_all is_digit yy \<and> read_nat yy = 25
         \<and> length seq = 4 \<and> list_all is_digit seq \<and> read_nat seq = 7"
    by (simp only: ex_pid_7 n)
  with c kept ex_pid_7 show ?thesis by (intro conjI)
qed

lemma ex_table_distinct: "n \<le> 9999 \<Longrightarrow> distinct (map sp_pid (ex_table n))"
proof -
  assume n: "n \<le> 9999"
  let ?f = "\<lambda>i. ''P25'' @ LPAD (show_nat (Suc i)) 4 CHR ''0''"
  have "inj_on ?f {0..<n}"
  proof (rule inj_onI)
    fix i j
    assume i: "i \<in> {0..<n}" and j: "j \<in> {0..<n}" and eq: "?f i = ?f j"
    from i n have "Suc i < 10 ^ 4" by auto
    then have ri: "read_nat (LPAD (show_nat (Suc i)) 4 CHR ''0'') = Suc i"
      by (rule LPAD_show_nat) simp
    from j n have "Suc j < 10 ^ 4" by auto
    then have rj: "read_nat (LPAD (show_nat (Suc j)) 4 CHR ''0'') = Suc j"
      by (rule LPAD_show_nat) simp
    from eq have "LPAD (show_nat (Suc i)) 4 CHR ''0'' = LPAD (show_nat (Suc j)) 4 CHR ''0''"
      by (rule same_append_eq [THEN iffD1])
    then have "read_nat (LPAD (show_nat (Suc i)) 4 CHR ''0'')
        = read_nat (LPAD (show_nat (Suc j)) 4 CHR ''0'')"
      by (rule arg_cong)
    then have "Suc i = Suc j" by (simp only: ri rj)
    then show "i = j" by (rule Suc_inject)
  qed
  then have "distinct (map ?f [0..<n])"
    by (simp add: distinct_map)
  then show ?thesis
    by (simp add: ex_table_def comp_def)
qed

lemma ex_table_nth: "i < n \<Longrightarrow> sp_pid (ex_table n ! i) = ''P25'' @ LPAD (show_nat (Suc i)) 4 CHR ''0''"
  by (simp add: ex_table_def)

text \<open>
  The claim as written has no bound. In a store whose 9999 projects of 2025 carry the
  distinct codes P250001 to P259999 the next number is 10000, which \<open>LPAD\<close> cuts to
  its first four digits: the assigned pid is P251000, whose number part reads 1000, not
  10000, and which the thousandth project already carries.
\<close>

theorem C8_pid_overflow_counterexample:
  "distinct (map sp_pid (ex_table 9999))
   \<and> count_created_in 2025 (ex_table 9999) = 9999
   \<and> set_project_pid 2025 (ex_table 9999) None = ''P251000''
   \<and> read_nat (drop 3 (set_project_pid 2025 (ex_table 9999) None))
       \<noteq> count_created_in 2025 (ex_table 9999) + 1
   \<and> sp_pid (ex_table 9999 ! 999) = ''P251000''"
proof -
  have "read_nat (drop 3 ''P251000'') = 1000"
    by (simp add: read_nat_def digit_val_def)
  moreover have "sp_pid (ex_table 9999 ! 999) = ''P251000''"
    by (simp add: ex_table_nth LPAD_def show_nat.simps digit_char_def)
  moreover have "distinct (map sp_pid (ex_table 9999))"
    by (rule ex_table_distinct) simp
  ultimately show ?thesis by (simp add: ex_pid_overflow ex_table_count)
qed


section \<open>Bulk import\<close>

lemma row_loop:
  "foldl (row_step parse) (es, vs) (enumerate n rows)
   = (es @ map (\<lambda>ir. row_error (fst ir) (parse (snd ir)))
             (filter (\<lambda>ir. \<not> is_Parsed (parse (snd ir))) (enumerate n rows)),
      vs @ map (\<lambda>r. the_parsed (parse r)) (filter (\<lambda>r. is_Parsed (parse r)) rows))"
proof (induction rows arbitrary: es vs n)
  case Nil
  show ?case by simp
next
  case (Cons r rows)
  have step: "row_step parse (es, vs) (n, r)
      = (case parse r of Parsed p \<Rightarrow> (es, vs @ [p]) | x \<Rightarrow> (es @ [row_error n x], vs))"
    by (simp add: row_step_def split: row_outcome.splits)
  show ?case
  proof (cases "parse r")
    case (Parsed p)
    then show ?thesis by (simp add: Cons step)
  next
    case (ZodError msgs)
    then show ?thesis by (simp add: Cons step)
  next
    case OtherError
    then show ?thesis by (simp add: Cons step)
  qed
qed

lemma no_invalid_row:
  assumes "filter (\<lambda>ir. \<not> is_Parsed (parse (snd ir))) (enumerate n rows) = []"
  shows "filter (\<lambda>r. is_Parsed (parse r)) rows = rows"
proof -
  have "is_Parsed (parse r)" if "r \<in> set rows" for r
  proof -
    from that obtain i where "i < length rows" "rows ! i = r"
      by (auto simp: in_set_conv_nth)
    then have "(n + i, r) \<in> set (enumerate n rows)"
      by (auto simp: in_set_enumerate_eq)
    with assms show ?thesis by (auto simp: filter_empty_conv)
  qed
  then show ?thesis by (simp add: filter_id_conv)
qed

lemma row_error_label:
  "\<exists>detail. row_error i r = ''Row '' @ show_nat (i + 2) @ '': '' @ detail"
  by (cases r) (simp_all add: row_error_def)

lemma ex_rows_parse:
  "projectSchema_parse ex_c1 = Parsed ex_c1"
  "projectSchema_parse ex_c2
     = ZodError [''Category must be Implementation, Maintenance, or LSC'', ''Nett GP must be positive'']"
  by (simp_all add: projectSchema_parse_def projectSchema_issues_def ex_c1_def ex_c2_def)

lemma ex_show_small: "show_nat 2 = ''2''" "show_nat 3 = ''3''"
  "show_nat (Suc (Suc (Suc 0))) = ''3''"
  by (simp_all add: show_nat.simps digit_char_def)

text \<open>
  C7. Bulk import is all-or-nothing. Every row of the sheet is validated on its own.
  If at least one row is invalid, the result is a failure whose errors are one message
  per invalid row, in row order, each beginning with "Row" and the row's index plus 2;
  the form keeps no row for upload. If no row is invalid and there is at least one row,
  the result is a success carrying the parsed project of every row, and the form
  uploads exactly those.
\<close>

theorem C7_all_or_nothing:
  "(filter (\<lambda>ir. \<not> is_Parsed (parse (snd ir))) (enumerate 0 rows) \<noteq> [] \<longrightarrow>
      parseExcelFile parse (Sheet rows)
        = \<lparr> success = False, data = None,
            errors = Some (map (\<lambda>ir. row_error (fst ir) (parse (snd ir)))
               (filter (\<lambda>ir. \<not> is_Parsed (parse (snd ir))) (enumerate 0 rows))) \<rparr>
      \<and> fst (handleFileChange (parseExcelFile parse (Sheet rows))) = []
      \<and> handleUpload (fst (handleFileChange (parseExcelFile parse (Sheet rows)))) = None)
   \<and> (filter (\<lambda>ir. \<not> is_Parsed (parse (snd ir))) (enumerate 0 rows) = [] \<and> rows \<noteq> [] \<longrightarrow>
      parseExcelFile parse (Sheet rows)
        = \<lparr> success = True, data = Some (map (\<lambda>r. the_parsed (parse r)) rows), errors = None \<rparr>
      \<and> handleUpload (fst (handleFileChange (parseExcelFile parse (Sheet rows))))
        = Some (map (\<lambda>r. the_parsed (parse r)) rows))
   \<and> (\<exists>detail. row_error i (parse r) = ''Row '' @ show_nat (i + 2) @ '': '' @ detail)"
proof (intro conjI impI)
  let ?bad = "filter (\<lambda>ir. \<not> is_Parsed (parse (snd ir))) (enumerate 0 rows)"
  let ?msgs = "map (\<lambda>ir. row_error (fst ir) (parse (snd ir))) ?bad"
  let ?good = "map (\<lambda>r. the_parsed (parse r)) (filter (\<lambda>r. is_Parsed (parse r)) rows)"
  have loop: "foldl (row_step parse) ([], []) (enumerate 0 rows) = (?msgs, ?good)"
    using row_loop [of parse "[]" "[]" 0 rows] by simp
  {
    assume bad: "?bad \<noteq> []"
    then show res: "parseExcelFile parse (Sheet rows)
        = \<lparr> success = False, data = None, errors = Some ?msgs \<rparr>"
      by (simp add: parseExcelFile_def loop Let_def)
    show "fst (handleFileChange (parseExcelFile parse (Sheet rows))) = []"
      by (simp add: res handleFileChange_def)
    then show "handleUpload (fst (handleFileChange (parseExcelFile parse (Sheet rows)))) = None"
      by (simp add: handleUpload_def)
  }
  {
    assume ok: "?bad = [] \<and> rows \<noteq> []"
    then have all: "filter (\<lambda>r. is_Parsed (parse r)) rows = rows"
      using no_invalid_row [of parse 0 rows] by simp
    from ok show res: "parseExcelFile parse (Sheet rows)
        = \<lparr> success = True, data = Some (map (\<lambda>r. the_parsed (parse r)) rows), errors = None \<rparr>"
      by (simp add: parseExcelFile_def loop all Let_def)
    from ok show "handleUpload (fst (handleFileChange (parseExcelFile parse (Sheet rows))))
        = Some (map (\<lambda>r. the_parsed (parse r)) rows)"
      by (simp add: res handleFileChange_def handleUpload_def)
  }
  show "\<exists>detail. row_error i (parse r) = ''Row '' @ show_nat (i + 2) @ '': '' @ detail"
    by (rule row_error_label)
qed

text \<open>
  A sheet with a valid first row and a second row with two faults is rejected with the
  one message for row 3 and nothing to upload; the sheet with the valid row alone is
  accepted and uploaded.
\<close>

theorem C7_all_or_nothing_witness:
  "filter (\<lambda>ir. \<not> is_Parsed (projectSchema_parse (snd ir))) (enumerate 0 [ex_c1, ex_c2])
     = [(1, ex_c2)]
   \<and> parseExcelFile projectSchema_parse (Sheet [ex_c1, ex_c2])
     = \<lparr> success = False, data = None,
         errors = Some [''Row 3: Category must be Implementation, Maintenance, or LSC, Nett GP must be positive''] \<rparr>
   \<and> handleUpload (fst (handleFileChange (parseExcelFile projectSchema_parse (Sheet [ex_c1, ex_c2]))))
     = None
   \<and> filter (\<lambda>ir. \<not> is_Parsed (projectSchema_parse (snd ir))) (enumerate 0 [ex_c1]) = []
   \<and> parseExcelFile projectSchema_parse (Sheet [ex_c1])
     = \<lparr> success = True, data = Some [ex_c1], errors = None \<rparr>
   \<and> handleUpload (fst (handleFileChange (parseExcelFile projectSchema_parse (Sheet [ex_c1]))))
     = Some [ex_c1]"
proof -
  have bad: "filter (\<lambda>ir. \<not> is_Parsed (projectSchema_parse (snd ir))) (enumerate 0 [ex_c1, ex_c2])
      = [(1, ex_c2)]"
    by (simp add: ex_rows_parse)
  have good: "filter (\<lambda>ir. \<not> is_Parsed (projectSchema_parse (snd ir))) (enumerate 0 [ex_c1]) = []"
    by (simp add: ex_rows_parse)
  have msg: "row_error 1 (projectSchema_parse ex_c2)
      = ''Row 3: Category must be Implementation, Maintenance, or LSC, Nett GP must be positive''"
    by (simp add: row_error_def ex_rows_parse ex_show_small)
  from bad have some_bad:
    "filter (\<lambda>ir. \<not> is_Parsed (projectSchema_parse (snd ir))) (enumerate 0 [ex_c1, ex_c2]) \<noteq> []"
    by (simp only:) simp
  from C7_all_or_nothing [of projectSchema_parse "[ex_c1, ex_c2]" 1 ex_c2] some_bad
  have r1: "parseExcelFile projectSchema_parse (Sheet [ex_c1, ex_c2])
      = \<lparr> success = False, data = None,
          errors = Some (map (\<lambda>ir. row_error (fst ir) (projectSchema_parse (snd ir)))
             (filter (\<lambda>ir. \<not> is_Parsed (projectSchema_parse (snd ir)))
                (enumerate 0 [ex_c1, ex_c2]))) \<rparr>"
    and r2: "handleUpload (fst (handleFileChange
        (parseExcelFile projectSchema_parse (Sheet [ex_c1, ex_c2])))) = None"
    by blast+
  from r1 msg have r1': "parseExcelFile projectSchema_parse (Sheet [ex_c1, ex_c2])
      = \<lparr> success = False, data = None,
          errors = Some [''Row 3: Category must be Implementation, Maintenance, or LSC, Nett GP must be positive''] \<rparr>"
    unfolding bad by simp
  note rejected = r1' r2
  from good have none_bad:
    "filter (\<lambda>ir. \<not> is_Parsed (projectSchema_parse (snd ir))) (enumerate 0 [ex_c1]) = []
     \<and> [ex_c1] \<noteq> []"
    by (simp only:) simp
  from C7_all_or_nothing [of projectSchema_parse "[ex_c1]" 0 ex_c1] none_bad
  have a1: "parseExcelFile projectSchema_parse (Sheet [ex_c1])
      = \<lparr> success = True, data = Some (map (\<lambda>r. the_parsed (projectSchema_parse r)) [ex_c1]),
          errors = None \<rparr>"
    and a2: "handleUpload (fst (handleFileChange (parseExcelFile projectSchema_parse (Sheet [ex_c1]))))
      = Some (map (\<lambda>r. the_parsed (projectSchema_parse r)) [ex_c1])"
    by blast+
  have "map (\<lambda>r. the_parsed (projectSchema_parse r)) [ex_c1] = [ex_c1]"
    by (simp add: ex_rows_parse)
  with a1 a2 have accepted: "parseExcelFile projectSchema_parse (Sheet [ex_c1])
      = \<lparr> success = True, data = Some [ex_c1], errors = None \<rparr>"
    "handleUpload (fst (handleFileChange (parseExcelFile projectSchema_parse (Sheet [ex_c1]))))
      = Some [ex_c1]"
    by (simp_all only:)
  from bad good rejected accepted show ?thesis by (intro conjI)
qed

end
